theory Spec2Isabelle
  imports Main "HOL-Library.AList" "HOL-Library.Sublist" "HOL-Library.Multiset"
begin

section \<open>JavaScript values and the options object\<close>

text \<open>
  The runtime options of a Kites instance are a plain JavaScript object
  (\<^verbatim>\<open>IKitesOptions\<close>, \<^verbatim>\<open>[key: string]: any\<close>).  Values are modelled by the
  datatype below; an object is an association list in insertion order.  Numbers are
  integers (no NaN, no fractions), and properties inherited from
  \<^verbatim>\<open>Object.prototype\<close> are not represented: a key that is not an own property
  reads as \<^verbatim>\<open>undefined\<close>.
\<close>

datatype jsval =
    Undefined
  | Null
  | Bool bool
  | Num int
  | Str string
  | Arr "jsval list"
  | Obj "(string \<times> jsval) list"

type_synonym js_object = "(string \<times> jsval) list"

text \<open>Errors raised by the code: \<^verbatim>\<open>new Error(message)\<close> and the engine's TypeError.\<close>

datatype js_error = Error string | TypeError

text \<open>\<^verbatim>\<open>obj[key]\<close> on an object.\<close>

definition get_prop :: "js_object \<Rightarrow> string \<Rightarrow> jsval" where
  "get_prop obj k = (case map_of obj k of None \<Rightarrow> Undefined | Some v \<Rightarrow> v)"

text \<open>\<^verbatim>\<open>obj[key] = v\<close> on an object: replaces in place or appends.\<close>

definition put_prop :: "string \<Rightarrow> jsval \<Rightarrow> js_object \<Rightarrow> js_object" where
  "put_prop k v obj = AList.update k v obj"

text \<open>JavaScript truthiness (ToBoolean).\<close>

fun truthy :: "jsval \<Rightarrow> bool" where
  "truthy Undefined = False"
| "truthy Null = False"
| "truthy (Bool b) = b"
| "truthy (Num n) = (n \<noteq> 0)"
| "truthy (Str s) = (s \<noteq> [])"
| "truthy (Arr xs) = True"
| "truthy (Obj kvs) = True"

text \<open>
  \<^verbatim>\<open>target[key] = v\<close> where \<^verbatim>\<open>target\<close> is any value.  On \<^verbatim>\<open>undefined\<close> and
  \<^verbatim>\<open>null\<close> the engine throws a TypeError; the module is compiled in strict mode, so
  the assignment to a property of a primitive throws as well.  A named property stored
  on an array is not represented in \<^typ>\<open>jsval\<close>: the array is returned as it is.
\<close>

fun put_member :: "jsval \<Rightarrow> string \<Rightarrow> jsval \<Rightarrow> js_error + jsval" where
  "put_member (Obj kvs) k v = Inr (Obj (put_prop k v kvs))"
| "put_member (Arr xs) k v = Inr (Arr xs)"
| "put_member _ k v = Inl TypeError"

text \<open>\<^verbatim>\<open>s.split(':')\<close>: always at least one token; the empty string gives \<^verbatim>\<open>['']\<close>.\<close>

fun split_colon :: "string \<Rightarrow> string list" where
  "split_colon [] = [[]]"
| "split_colon (c # cs) =
     (if c = CHR '':'' then [] # split_colon cs
      else (case split_colon cs of
              [] \<Rightarrow> [[c]]
            | t # ts \<Rightarrow> (c # t) # ts))"

section \<open>KitesInstance: option accessors\<close>

text \<open>
  \<^verbatim>\<open>defaultOption(option, defaultValue) { return this.options[option] || defaultValue; }\<close>
\<close>

definition defaultOption :: "js_object \<Rightarrow> string \<Rightarrow> jsval \<Rightarrow> jsval" where
  "defaultOption opts option defaultValue =
     (let v = get_prop opts option in if truthy v then v else defaultValue)"

text \<open>
  \<^verbatim>\<open>set(option, value)\<close>:
  \<^verbatim>\<open>
    const tokens = option.split(':');
    if (tokens.length === 2) { this.options[tokens[0]][tokens[1]] = value; }
    else if (tokens.length === 1) { this.options[tokens[0]] = value; }
  \<close>
  The result is the new options object, or the error the assignment throws.
\<close>

definition kites_set :: "js_object \<Rightarrow> string \<Rightarrow> jsval \<Rightarrow> js_error + js_object" where
  "kites_set opts option v =
     (case split_colon option of
        [t0, t1] \<Rightarrow>
          (case put_member (get_prop opts t0) t1 v of
             Inl e \<Rightarrow> Inl e
           | Inr target \<Rightarrow> Inr (put_prop t0 target opts))
      | [t0] \<Rightarrow> Inr (put_prop t0 v opts)
      | _ \<Rightarrow> Inr opts)"

section \<open>Extension descriptors\<close>

text \<open>
  What an entry point may throw: an \<^verbatim>\<open>Error\<close> object (the argument is its
  \<^verbatim>\<open>stack\<close> text), a string (as the manager's own
  \<^verbatim>\<open>Promise.reject('Invalid kites extension: ...')\<close>), or \<^verbatim>\<open>null\<close>/\<^verbatim>\<open>undefined\<close>.
\<close>

datatype thrown = Thrown_Error string | Thrown_string string | Thrown_nullish

text \<open>
  The body of an entry point, as far as the orchestrator can observe it, is a list of
  actions run in order:
  \<^item> \<open>Add_initializer l\<close> appends a deferred initializer to
    \<^verbatim>\<open>kites.initializeListeners\<close>;
  \<^item> \<open>Disable_self\<close> is \<^verbatim>\<open>extension.options.enabled = false\<close> on the descriptor
    it received;
  \<^item> \<open>Start_async k ok\<close> starts asynchronous work that takes \<open>k\<close> further
    microtask turns and then settles the promise the entry point returns
    (\<open>ok\<close>: fulfilled, otherwise rejected);
  \<^item> \<open>Throw t\<close> throws synchronously; the rest of the body does not run.
\<close>

datatype action =
    Add_initializer string
  | Disable_self
  | Start_async nat bool
  | Throw thrown

record js_function =
  fn_name :: string
  body :: "action list"

datatype main_field = Main_function js_function | Main_string string | Main_other

text \<open>
  \<^verbatim>\<open>KitesExtension\<close>: the descriptor.  \<open>None\<close> stands for \<^verbatim>\<open>undefined\<close>.
\<close>

record extension =
  name :: "string option"
  dependencies :: "string list"
  directory :: "string option"
  main :: main_field
  init :: "js_function option"
  ext_options :: "js_object option"

section \<open>The state of a run\<close>

datatype outcome = Fulfilled | Rejected js_error

text \<open>
  What happens during a run, in order.  The index of an event is the position of the
  descriptor in the list handed to \<^verbatim>\<open>useMany\<close>.
  \<^item> \<open>Invoked i\<close>: the entry point of descriptor \<open>i\<close> was called and ran its
    synchronous part;
  \<^item> \<open>Async_settled i ok\<close>: the asynchronous work of entry point \<open>i\<close> is over;
  \<^item> \<open>Emit_registered i\<close>: the manager emitted \<^verbatim>\<open>'extension:registered'\<close>;
  \<^item> \<open>Settled i r\<close>: the promise returned by \<^verbatim>\<open>useOne\<close> for descriptor \<open>i\<close>
    settled;
  \<^item> \<open>Fired l\<close>: the deferred initializer \<open>l\<close> ran;
  \<^item> \<open>Emit_initialized b\<close>: \<^verbatim>\<open>emit('initialized', this)\<close>; \<open>b\<close> is the value of
    \<^verbatim>\<open>isInitialized\<close> while the listeners run.
\<close>

datatype event =
    Called_afterConfigLoaded
  | Log_initializing
  | Log_discovered nat
  | Log_autodiscover_off
  | Log_skipping nat
  | Log_was_disabled nat
  | Log_error string
  | Log_initialized
  | Invoked nat
  | Async_settled nat bool
  | Emit_registered nat
  | Settled nat outcome
  | Fired string
  | Emit_initialized bool

text \<open>
  The KitesInstance with its ExtensionsManager, and the promises of the run:
  \<open>all_remaining\<close> and \<open>all_result\<close> are the counter and the state of the promise of
  \<^verbatim>\<open>Promise.all\<close> in \<^verbatim>\<open>useMany\<close>; \<open>init_waiting\<close> says that the promise of
  \<^verbatim>\<open>ExtensionsManager.init()\<close> has subscribed to it; \<open>init_result\<close> is the state of the
  promise of \<^verbatim>\<open>KitesInstance.init()\<close> (\<open>None\<close>: pending).
\<close>

record kites =
  options :: js_object
  initialized :: bool
  isReady :: bool
  logs_silent :: bool
  initializeListeners :: "string list"
  availableExtensions :: "extension list"
  usedExtensions :: "extension list"
  trace :: "event list"
  all_remaining :: nat
  all_result :: "outcome option"
  init_waiting :: bool
  init_result :: "outcome option"

text \<open>Arguments of the call of \<^verbatim>\<open>discover\<close> (the logger is left out).\<close>

record discover_options =
  d_cacheAvailableExtensions :: jsval
  d_extensionsLocationCache :: jsval
  d_env :: jsval
  d_depth :: jsval
  d_rootDirectory :: "jsval list"
  d_tempDirectory :: jsval

text \<open>
  What the code takes from outside the repository's sources under study: the file
  system, \<^verbatim>\<open>path\<close>, \<^verbatim>\<open>app-root-path\<close>, \<^verbatim>\<open>process.env.NODE_ENV\<close>, \<^verbatim>\<open>nconf\<close>,
  \<^verbatim>\<open>require\<close>, and the modules \<^verbatim>\<open>./discover\<close> and \<^verbatim>\<open>./sorter\<close>, which are imported
  by the manager but whose sources are not part of it.
\<close>

record environment =
  existsSync :: "string \<Rightarrow> bool"
  path_isAbsolute :: "string \<Rightarrow> bool"
  path_join :: "string \<Rightarrow> string \<Rightarrow> string"
  appRoot :: string
  node_env :: string
  parent_dirname :: string
  root_dirname :: string
  nconf_get :: "js_object \<Rightarrow> string option \<Rightarrow> js_object"
  require_module :: "string \<Rightarrow> thrown + js_function"
  discover :: "discover_options \<Rightarrow> extension list"
  sorter :: "extension \<Rightarrow> extension \<Rightarrow> int"

definition log :: "event list \<Rightarrow> kites \<Rightarrow> kites" where
  "log es st = st\<lparr>trace := trace st @ es\<rparr>"

section \<open>KitesInstance: construction and configuration\<close>

text \<open>\<^verbatim>\<open>_.assign(target, src)\<close> and \<^verbatim>\<open>Object.assign\<close>: own properties of the source, in order.\<close>

definition assign :: "js_object \<Rightarrow> js_object \<Rightarrow> js_object" where
  "assign target src = fold (\<lambda>(k, v). put_prop k v) src target"

text \<open>
  \<^verbatim>\<open>get defaults()\<close>.  \<^verbatim>\<open>process.env.NODE_ENV || 'development'\<close>: an unset variable is
  the empty string here.
\<close>

definition defaults :: "environment \<Rightarrow> js_object" where
  "defaults env =
     [(''appDirectory'', Str (appRoot env)),
      (''discover'', Bool False),
      (''env'', Str (if node_env env = [] then ''development'' else node_env env)),
      (''logger'', Obj [(''console'', Obj [(''level'', Str ''debug''), (''transport'', Str ''console'')])]),
      (''parentModuleDirectory'', Str (parent_dirname env)),
      (''rootDirectory'', Str (root_dirname env))]"

text \<open>The constructor: \<^verbatim>\<open>this.options = Object.assign(this.defaults, options)\<close>.\<close>

definition new_kites :: "environment \<Rightarrow> js_object \<Rightarrow> kites" where
  "new_kites env user_options =
     \<lparr>options = assign (defaults env) user_options,
      initialized = False,
      isReady = False,
      logs_silent = False,
      initializeListeners = [],
      availableExtensions = [],
      usedExtensions = [],
      trace = [],
      all_remaining = 0,
      all_result = None,
      init_waiting = False,
      init_result = None\<rparr>"

definition configFileName :: "js_object \<Rightarrow> string" where
  "configFileName opts =
     (if get_prop opts ''env'' = Str ''production'' then ''prod.config.json''
      else if get_prop opts ''env'' = Str ''test'' then ''test.config.json''
      else ''dev.config.json'')"

definition defaultConfigFile :: string where
  "defaultConfigFile = ''kites.config.json''"

text \<open>\<^verbatim>\<open>get appDirectory() { return this.options.appDirectory || this.defaults.appDirectory; }\<close>\<close>

definition appDirectory :: "environment \<Rightarrow> js_object \<Rightarrow> jsval" where
  "appDirectory env opts = defaultOption opts ''appDirectory'' (Str (appRoot env))"

text \<open>\<^verbatim>\<open>path.join(a, b)\<close>: a TypeError unless both arguments are strings.\<close>

definition join_path :: "environment \<Rightarrow> jsval \<Rightarrow> string \<Rightarrow> js_error + string" where
  "join_path env a b = (case a of Str d \<Rightarrow> Inr (path_join env d b) | _ \<Rightarrow> Inl TypeError)"

text \<open>
  \<^verbatim>\<open>_loadConfig()\<close>.  The result is the state with the options the call leaves
  behind, and the error it throws, if any.
\<close>

definition loadConfig :: "environment \<Rightarrow> kites \<Rightarrow> kites \<times> js_error option" where
  "loadConfig env st =
     (let opts = options st; cf = get_prop opts ''configFile'' in
      if \<not> truthy cf then
        (let opts1 = put_prop ''configFile'' (Str (configFileName opts)) opts;
             st1 = st\<lparr>options := opts1\<rparr> in
         case join_path env (appDirectory env opts1) (configFileName opts) of
           Inl e \<Rightarrow> (st1, Some e)
         | Inr p1 \<Rightarrow>
             if existsSync env p1 then (st1\<lparr>options := nconf_get env opts1 (Some p1)\<rparr>, None)
             else
               (case join_path env (appDirectory env opts1) defaultConfigFile of
                  Inl e \<Rightarrow> (st1, Some e)
                | Inr p2 \<Rightarrow>
                    if existsSync env p2 then
                      (let opts2 = put_prop ''configFile'' (Str defaultConfigFile) opts1
                       in (st\<lparr>options := nconf_get env opts2 (Some p2)\<rparr>, None))
                    else (st1\<lparr>options := nconf_get env opts1 None\<rparr>, None)))
      else
        (case cf of
           Str f \<Rightarrow>
             (case (if path_isAbsolute env f then Inr f else join_path env (appDirectory env opts) f) of
                Inl e \<Rightarrow> (st, Some e)
              | Inr configFilePath \<Rightarrow>
                  if \<not> existsSync env configFilePath
                  then (st, Some (Error (''Config file '' @ f @ '' was not found.'')))
                  else (st\<lparr>options := nconf_get env opts (Some configFilePath)\<rparr>, None))
         | _ \<Rightarrow> (st, Some TypeError)))"

text \<open>
  \<^verbatim>\<open>_initOptions()\<close>:
  \<^verbatim>\<open>if (this.options.loadConfig) { this._loadConfig(); this.fnAfterConfigLoaded(this); }\<close>
\<close>

definition initOptions :: "environment \<Rightarrow> kites \<Rightarrow> kites \<times> js_error option" where
  "initOptions env st =
     (if truthy (get_prop (options st) ''loadConfig'') then
        (case loadConfig env st of
           (st1, Some e) \<Rightarrow> (st1, Some e)
         | (st1, None) \<Rightarrow> (log [Called_afterConfigLoaded] st1, None))
      else (st, None))"

text \<open>\<^verbatim>\<open>v[key]\<close> for reading: a primitive has no such property.\<close>

definition get_member :: "jsval \<Rightarrow> string \<Rightarrow> jsval" where
  "get_member v k = (case v of Obj kvs \<Rightarrow> get_prop kvs k | _ \<Rightarrow> Undefined)"

text \<open>
  \<^verbatim>\<open>if (this.options.logger && this.options.logger.silent === true) this._silentLogs(...)\<close>
\<close>

definition silence_logs :: "kites \<Rightarrow> kites" where
  "silence_logs st =
     (let logger = get_prop (options st) ''logger'' in
      if truthy logger \<and> get_member logger ''silent'' = Bool True
      then st\<lparr>logs_silent := True\<rparr> else st)"

section \<open>ExtensionsManager: registration and option merging\<close>

text \<open>
  \<^verbatim>\<open>use(extension)\<close>: a function is wrapped into a descriptor, anything else is pushed
  as it is.  \<^verbatim>\<open>IKitesOptions\<close> declares \<^verbatim>\<open>parentModuleDirectory?: string\<close>; a value of
  another type is read as \<^verbatim>\<open>undefined\<close>.
\<close>

definition string_or_undefined :: "jsval \<Rightarrow> string option" where
  "string_or_undefined v = (case v of Str s \<Rightarrow> Some s | _ \<Rightarrow> None)"

definition use :: "js_function + extension \<Rightarrow> kites \<Rightarrow> kites" where
  "use extension st =
     (case extension of
        Inl f \<Rightarrow>
          st\<lparr>usedExtensions := usedExtensions st @
            [\<lparr>name = Some (if fn_name f = [] then ''<no-name>'' else fn_name f),
              dependencies = [],
              directory = string_or_undefined (get_prop (options st) ''parentModuleDirectory''),
              main = Main_function f,
              init = None,
              ext_options = None\<rparr>]\<rparr>
      | Inr e \<Rightarrow> st\<lparr>usedExtensions := usedExtensions st @ [e]\<rparr>)"

text \<open>\<^verbatim>\<open>String.prototype.toLowerCase\<close> on ASCII letters.\<close>

definition lower_char :: "char \<Rightarrow> char" where
  "lower_char c =
     (case map_of (zip ''ABCDEFGHIJKLMNOPQRSTUVWXYZ'' ''abcdefghijklmnopqrstuvwxyz'') c of
        Some l \<Rightarrow> l
      | None \<Rightarrow> c)"

definition toLowerCase :: "string \<Rightarrow> string" where
  "toLowerCase s = map lower_char s"

text \<open>
  The key \<^verbatim>\<open>extension.name && extension.name.toLowerCase()\<close>: an undefined name is
  the property key \<^verbatim>\<open>'undefined'\<close>, an empty name stays empty.
\<close>

definition options_key :: "extension \<Rightarrow> string" where
  "options_key e =
     (case name e of
        None \<Rightarrow> ''undefined''
      | Some n \<Rightarrow> if n = [] then [] else toLowerCase n)"

text \<open>Decimal digits of an index, as \<^verbatim>\<open>String(i)\<close>.\<close>

fun string_of_nat :: "nat \<Rightarrow> string" where
  "string_of_nat n =
     (if n < 10 then [''0123456789'' ! n]
      else string_of_nat (n div 10) @ [''0123456789'' ! (n mod 10)])"

declare string_of_nat.simps [simp del]

text \<open>The elements of an array-like value under their indices.\<close>

definition indexed :: "jsval list \<Rightarrow> js_object" where
  "indexed xs = zip (map string_of_nat [0..<length xs]) xs"

text \<open>
  What \<^verbatim>\<open>_.assign\<close> copies from a source: the own enumerable properties.  For an
  object these are its properties; a string is array-like and gives its characters
  under their indices, an array its elements under their indices; \<^verbatim>\<open>undefined\<close>,
  \<^verbatim>\<open>null\<close>, numbers and booleans give nothing (a falsy source is skipped, a number or
  \<^verbatim>\<open>true\<close> has no own property).
\<close>

definition own_props :: "jsval \<Rightarrow> js_object" where
  "own_props v =
     (case v of
        Obj kvs \<Rightarrow> kvs
      | Str s \<Rightarrow> indexed (map (\<lambda>c. Str [c]) s)
      | Arr xs \<Rightarrow> indexed xs
      | _ \<Rightarrow> [])"

definition own_options :: "extension \<Rightarrow> js_object" where
  "own_options e = (case ext_options e of None \<Rightarrow> [] | Some kvs \<Rightarrow> kvs)"

text \<open>
  \<^verbatim>\<open>_.assign({}, extension.options, this.kites.options[extension.name && extension.name.toLowerCase()])\<close>
\<close>

definition merged_options :: "js_object \<Rightarrow> extension \<Rightarrow> js_object" where
  "merged_options opts e =
     assign (assign [] (own_options e)) (own_props (get_prop opts (options_key e)))"

section \<open>ExtensionsManager: activation as promise jobs\<close>

text \<open>
  \<^verbatim>\<open>useOne\<close> builds the chain
  \<^verbatim>\<open>Promise.resolve().then(f).then(g).catch(h)\<close> and \<^verbatim>\<open>useMany\<close> hands the chains of
  all descriptors to \<^verbatim>\<open>Promise.all\<close>.  The callbacks run as promise jobs, first in
  first out.  A job is one reaction of one promise:
  \<^item> \<open>Then_main\<close>: the callback \<open>f\<close>, which calls the entry point;
  \<^item> \<open>Resolve_thenable\<close>: \<open>f\<close> returned \<^verbatim>\<open>Promise.resolve()\<close> (\<open>None\<close>) or
    \<^verbatim>\<open>Promise.reject(r)\<close> (\<open>Some r\<close>); the job subscribes to that promise;
  \<^item> \<open>Settle_first\<close>: the returned promise's reaction settles the promise of
    \<^verbatim>\<open>.then(f)\<close>;
  \<^item> \<open>Then_registered\<close>: the callback \<open>g\<close>;
  \<^item> \<open>Skip_registered\<close>: \<^verbatim>\<open>.then(g)\<close> has no rejection handler, the rejection passes on;
  \<^item> \<open>Catch_handler\<close>: the callback \<open>h\<close>;
  \<^item> \<open>Skip_catch\<close>: \<^verbatim>\<open>.catch(h)\<close> has no fulfilment handler, the promise returned by
    \<^verbatim>\<open>useOne\<close> is fulfilled;
  \<^item> \<open>All_resolveElement\<close>, \<open>All_reject\<close>: the reactions of \<^verbatim>\<open>Promise.all\<close>;
  \<^item> \<open>Async_step\<close>: a turn of the asynchronous work an entry point started;
  \<^item> \<open>Init_thenable\<close>: \<^verbatim>\<open>ExtensionsManager.init\<close> returned the promise of
    \<^verbatim>\<open>useMany\<close>; the job subscribes to it;
  \<^item> \<open>Init_settle\<close>: the promise of \<^verbatim>\<open>ExtensionsManager.init()\<close> settles;
  \<^item> \<open>Kites_resume\<close>: \<^verbatim>\<open>KitesInstance.init\<close> goes on after
    \<^verbatim>\<open>await this.extensionsManager.init()\<close>.
\<close>

datatype job =
    Then_main nat extension
  | Resolve_thenable nat extension "thrown option"
  | Settle_first nat extension "thrown option"
  | Then_registered nat extension
  | Skip_registered nat extension thrown
  | Catch_handler nat extension thrown
  | Skip_catch nat
  | All_resolveElement nat
  | All_reject js_error
  | Async_step nat nat bool
  | Init_thenable
  | Init_settle outcome
  | Kites_resume outcome

text \<open>
  The synchronous part of \<^verbatim>\<open>useOne\<close>: merge the options, store them in the
  descriptor, and either return \<^verbatim>\<open>Promise.resolve()\<close> (no job) or start the chain (the
  job of \<open>f\<close> is queued at once, since \<^verbatim>\<open>Promise.resolve()\<close> is already fulfilled).
\<close>

definition useOne :: "nat \<Rightarrow> extension \<Rightarrow> kites \<Rightarrow> kites \<times> extension \<times> job option" where
  "useOne i extension st =
     (let opts = merged_options (options st) extension;
          e = extension\<lparr>ext_options := Some opts\<rparr> in
      if get_prop opts ''enabled'' = Bool False
      then (log [Log_skipping i, Settled i Fulfilled] st, e, None)
      else (st, e, Some (Then_main i e)))"

text \<open>\<^verbatim>\<open>extensions.map((e) => this.useOne(e))\<close>, with the indices.\<close>

fun map_useOne :: "nat \<Rightarrow> extension list \<Rightarrow> kites \<Rightarrow> kites \<times> (extension \<times> job option) list" where
  "map_useOne i [] st = (st, [])"
| "map_useOne i (e # es) st =
     (case useOne i e st of
        (st1, e1, p) \<Rightarrow>
          (case map_useOne (Suc i) es st1 of
             (st2, rs) \<Rightarrow> (st2, (e1, p) # rs)))"

text \<open>
  \<^verbatim>\<open>Promise.all(promises)\<close> subscribes to every promise in order: for a promise that
  is already fulfilled the reaction is queued at once.
\<close>

fun all_subscribe :: "nat \<Rightarrow> job option list \<Rightarrow> job list" where
  "all_subscribe i [] = []"
| "all_subscribe i (None # ps) = All_resolveElement i # all_subscribe (Suc i) ps"
| "all_subscribe i (Some j # ps) = all_subscribe (Suc i) ps"

text \<open>
  \<^verbatim>\<open>useMany(extensions)\<close>: the state, the descriptors with their merged options, and
  the job queue it leaves: the jobs of \<open>f\<close> queued during \<^verbatim>\<open>map\<close>, then the reactions
  queued by \<^verbatim>\<open>Promise.all\<close>.  \<^verbatim>\<open>Promise.all([])\<close> is fulfilled at once.
\<close>

definition useMany :: "extension list \<Rightarrow> kites \<Rightarrow> kites \<times> extension list \<times> job list" where
  "useMany extensions st =
     (case map_useOne 0 extensions st of
        (st1, rs) \<Rightarrow>
          (st1\<lparr>all_remaining := length rs,
               all_result := (if rs = [] then Some Fulfilled else None)\<rparr>,
           map fst rs,
           List.map_filter snd rs @ all_subscribe 0 (map snd rs)))"

text \<open>What \<open>f\<close> finds in the descriptor.\<close>

datatype dispatch = Call "action list" | Load_failed thrown | Invalid

definition init_dispatch :: "extension \<Rightarrow> dispatch" where
  "init_dispatch e = (case init e of Some f \<Rightarrow> Call (body f) | None \<Rightarrow> Invalid)"

definition entry_of :: "environment \<Rightarrow> extension \<Rightarrow> dispatch" where
  "entry_of env e =
     (case main e of
        Main_function f \<Rightarrow> Call (body f)
      | Main_string p \<Rightarrow>
          (case directory e of
             None \<Rightarrow> init_dispatch e
           | Some d \<Rightarrow>
               if d = [] then init_dispatch e
               else (case require_module env (path_join env d p) of
                       Inl t \<Rightarrow> Load_failed t
                     | Inr f \<Rightarrow> Call (body f)))
      | Main_other \<Rightarrow> init_dispatch e)"

text \<open>
  Running the body of an entry point for descriptor \<open>i\<close>: what it throws, the
  descriptor and the state it leaves, and the jobs it queued.
\<close>

fun run_body :: "nat \<Rightarrow> action list \<Rightarrow> extension \<Rightarrow> kites
                  \<Rightarrow> thrown option \<times> extension \<times> kites \<times> job list" where
  "run_body i [] e st = (None, e, st, [])"
| "run_body i (Add_initializer l # acts) e st =
     run_body i acts e (st\<lparr>initializeListeners := initializeListeners st @ [l]\<rparr>)"
| "run_body i (Disable_self # acts) e st =
     run_body i acts (e\<lparr>ext_options := Some (put_prop ''enabled'' (Bool False) (own_options e))\<rparr>) st"
| "run_body i (Start_async k ok # acts) e st =
     (case run_body i acts e st of
        (t, e1, st1, js) \<Rightarrow> (t, e1, st1, Async_step i k ok # js))"
| "run_body i (Throw t # acts) e st = (Some t, e, st, [])"

definition name_text :: "extension \<Rightarrow> string" where
  "name_text e = (case name e of None \<Rightarrow> ''undefined'' | Some n \<Rightarrow> n)"

definition os_EOL :: string where
  "os_EOL = [CHR 0x0A]"

text \<open>\<^verbatim>\<open>${e.stack}\<close>: \<open>None\<close> when reading \<^verbatim>\<open>e.stack\<close> throws a TypeError.\<close>

fun stack_text :: "thrown \<Rightarrow> string option" where
  "stack_text (Thrown_Error stack) = Some stack"
| "stack_text (Thrown_string s) = Some ''undefined''"
| "stack_text Thrown_nullish = None"

text \<open>The message built by the \<^verbatim>\<open>catch\<close> callback.\<close>

definition errorMsg :: "extension \<Rightarrow> string \<Rightarrow> string" where
  "errorMsg e stack =
     (if name e = None \<or> name e = Some []
      then ''Error when loading anonymous extension ''
           @ (case directory e of None \<Rightarrow> [] | Some d \<Rightarrow> '' at '' @ d) @ os_EOL @ stack
      else ''Error when loading extension '' @ name_text e @ os_EOL @ stack)"

text \<open>Settling the promise of \<^verbatim>\<open>Promise.all\<close>: only the first time counts.\<close>

definition settle_all :: "outcome \<Rightarrow> kites \<Rightarrow> kites \<times> job list" where
  "settle_all r st =
     (if all_result st = None
      then (st\<lparr>all_result := Some r\<rparr>, if init_waiting st then [Init_settle r] else [])
      else (st, []))"

text \<open>
  Modelled from the spec: the deferred-initializer collection
  (\<^verbatim>\<open>EventCollectionEmitter\<close>, whose source is not among the files).  The spec: "an
  ordered registry of zero-argument asynchronous operations that any extension may
  append to during its own activation; the Runtime Instance fires them all, strictly
  in registration order".
\<close>

definition fire :: "kites \<Rightarrow> kites" where
  "fire st = log (map Fired (initializeListeners st)) st"

text \<open>
  \<^verbatim>\<open>this.emit('initialized', this)\<close>: the listeners run inside the call; the one
  installed by the constructor resolves \<^verbatim>\<open>isReady\<close>.
\<close>

definition emit_initialized :: "kites \<Rightarrow> kites" where
  "emit_initialized st = (log [Emit_initialized (initialized st)] st)\<lparr>isReady := True\<rparr>"

text \<open>
  The rest of \<^verbatim>\<open>KitesInstance.init\<close> after the manager's promise is fulfilled:
  \<^verbatim>\<open>
    await this.initializeListeners.fire();
    this.logger.info('kites initialized!');
    this.emit('initialized', this);
    this.initialized = true;
    return this;
  \<close>
  The deferred initializers run in one piece here: the turns their own promises take
  are not told apart.
\<close>

definition finish_init :: "kites \<Rightarrow> kites" where
  "finish_init st =
     (let st1 = fire st;
          st2 = log [Log_initialized] st1;
          st3 = emit_initialized st2;
          st4 = st3\<lparr>initialized := True\<rparr>
      in st4\<lparr>init_result := Some Fulfilled\<rparr>)"

text \<open>One job: the state it leaves and the jobs it queues, in order.\<close>

fun exec :: "environment \<Rightarrow> job \<Rightarrow> kites \<Rightarrow> kites \<times> job list" where
  "exec env (Then_main i e) st =
     (case entry_of env e of
        Call acts \<Rightarrow>
          (case run_body i acts e (log [Invoked i] st) of
             (t, e1, st1, js) \<Rightarrow>
               (st1\<lparr>availableExtensions := (availableExtensions st1)[i := e1]\<rparr>,
                js @ [case t of
                        None \<Rightarrow> Resolve_thenable i e1 None
                      | Some x \<Rightarrow> Skip_registered i e1 x]))
      | Load_failed x \<Rightarrow> (st, [Skip_registered i e x])
      | Invalid \<Rightarrow>
          (st, [Resolve_thenable i e (Some (Thrown_string (''Invalid kites extension: '' @ name_text e)))]))"
| "exec env (Resolve_thenable i e r) st = (st, [Settle_first i e r])"
| "exec env (Settle_first i e None) st = (st, [Then_registered i e])"
| "exec env (Settle_first i e (Some x)) st = (st, [Skip_registered i e x])"
| "exec env (Then_registered i e) st =
     (if get_prop (own_options e) ''enabled'' \<noteq> Bool False
      then (log [Emit_registered i] st, [Skip_catch i])
      else (log [Log_was_disabled i] st, [Skip_catch i]))"
| "exec env (Skip_registered i e x) st = (st, [Catch_handler i e x])"
| "exec env (Catch_handler i e x) st =
     (case stack_text x of
        None \<Rightarrow> (log [Settled i (Rejected TypeError)] st, [All_reject TypeError])
      | Some stack \<Rightarrow>
          (log [Log_error (errorMsg e stack), Settled i (Rejected (Error (errorMsg e stack)))] st,
           [All_reject (Error (errorMsg e stack))]))"
| "exec env (Skip_catch i) st = (log [Settled i Fulfilled] st, [All_resolveElement i])"
| "exec env (All_resolveElement i) st =
     (let st1 = st\<lparr>all_remaining := all_remaining st - 1\<rparr> in
      if all_remaining st1 = 0 then settle_all Fulfilled st1 else (st1, []))"
| "exec env (All_reject err) st = settle_all (Rejected err) st"
| "exec env (Async_step i k ok) st =
     (case k of
        0 \<Rightarrow> (log [Async_settled i ok] st, [])
      | Suc k' \<Rightarrow> (st, [Async_step i k' ok]))"
| "exec env Init_thenable st =
     (case all_result st of
        Some r \<Rightarrow> (st, [Init_settle r])
      | None \<Rightarrow> (st\<lparr>init_waiting := True\<rparr>, []))"
| "exec env (Init_settle r) st = (st, [Kites_resume r])"
| "exec env (Kites_resume Fulfilled) st = (finish_init st, [])"
| "exec env (Kites_resume (Rejected err)) st = (st\<lparr>init_result := Some (Rejected err)\<rparr>, [])"

text \<open>An upper bound of the number of jobs a job stands for, itself included.\<close>

fun async_weight :: "action list \<Rightarrow> nat" where
  "async_weight [] = 0"
| "async_weight (Start_async k ok # acts) = Suc k + async_weight acts"
| "async_weight (a # acts) = async_weight acts"

fun weight :: "environment \<Rightarrow> job \<Rightarrow> nat" where
  "weight env (Then_main i e) =
     8 + (case entry_of env e of Call acts \<Rightarrow> async_weight acts | _ \<Rightarrow> 0)"
| "weight env (Resolve_thenable i e r) = 7"
| "weight env (Settle_first i e r) = 6"
| "weight env (Then_registered i e) = 5"
| "weight env (Skip_registered i e x) = 5"
| "weight env (Catch_handler i e x) = 4"
| "weight env (Skip_catch i) = 4"
| "weight env (All_resolveElement i) = 3"
| "weight env (All_reject err) = 3"
| "weight env (Async_step i k ok) = Suc k"
| "weight env Init_thenable = 3"
| "weight env (Init_settle r) = 2"
| "weight env (Kites_resume r) = 1"

lemma run_body_weight:
  "run_body i acts e st = (t, e1, st1, js) \<Longrightarrow> sum_list (map (weight env) js) \<le> async_weight acts"
proof (induction i acts e st arbitrary: t e1 st1 js rule: run_body.induct)
  case (4 i k ok acts e st)
  then show ?case by (auto split: prod.splits)
qed auto

lemma exec_weight:
  "exec env j st = (st1, js) \<Longrightarrow> sum_list (map (weight env) js) < weight env j"
proof (cases j)
  case (Then_main i e)
  assume ex: "exec env j st = (st1, js)"
  show ?thesis
  proof (cases "entry_of env e")
    case (Call acts)
    obtain t e1 st2 ks where rb: "run_body i acts e (log [Invoked i] st) = (t, e1, st2, ks)"
      by (cases "run_body i acts e (log [Invoked i] st)") auto
    from run_body_weight [OF rb] have "sum_list (map (weight env) ks) \<le> async_weight acts" .
    with ex Then_main Call rb show ?thesis
      by (auto split: option.splits)
  next
    case (Load_failed x)
    with ex Then_main show ?thesis by auto
  next
    case Invalid
    with ex Then_main show ?thesis by auto
  qed
next
  case (Settle_first i e r)
  assume "exec env j st = (st1, js)"
  with Settle_first show ?thesis by (cases r) auto
next
  case (Kites_resume r)
  assume "exec env j st = (st1, js)"
  with Kites_resume show ?thesis by (cases r) auto
qed (auto simp: settle_all_def Let_def split: if_splits option.splits nat.splits)

text \<open>
  The job queue runs until it is empty: the first job is taken, and the jobs it queues
  go to the end.
\<close>

function drain :: "environment \<Rightarrow> job list \<Rightarrow> kites \<Rightarrow> kites" where
  "drain env [] st = st"
| "drain env (j # q) st = (case exec env j st of (st1, js) \<Rightarrow> drain env (q @ js) st1)"
  by pat_completeness auto
termination
  by (relation "measure (\<lambda>(env, q, st). sum_list (map (weight env) q))")
     (auto dest: exec_weight [OF sym])

section \<open>ExtensionsManager.init and KitesInstance.init\<close>

text \<open>
  \<^verbatim>\<open>Array.prototype.sort(sorter)\<close>, as a stable insertion sort by the comparator.  (For a
  comparator that is not a consistent order the result of \<^verbatim>\<open>sort\<close> depends on the
  engine; it is a permutation in every engine.)
\<close>

fun insert_by :: "('a \<Rightarrow> 'a \<Rightarrow> int) \<Rightarrow> 'a \<Rightarrow> 'a list \<Rightarrow> 'a list" where
  "insert_by cmp x [] = [x]"
| "insert_by cmp x (y # ys) = (if cmp x y \<le> 0 then x # y # ys else y # insert_by cmp x ys)"

definition sort_by_cmp :: "('a \<Rightarrow> 'a \<Rightarrow> int) \<Rightarrow> 'a list \<Rightarrow> 'a list" where
  "sort_by_cmp cmp xs = foldr (insert_by cmp) xs []"

definition name_val :: "extension \<Rightarrow> jsval" where
  "name_val e = (case name e of None \<Rightarrow> Undefined | Some n \<Rightarrow> Str n)"

text \<open>
  \<^verbatim>\<open>allowedExtensions.indexOf(e.name) > -1\<close>: on an array a search by strict equality,
  on a string a substring search; any other value has no \<^verbatim>\<open>indexOf\<close>.
\<close>

definition allowed :: "jsval \<Rightarrow> extension \<Rightarrow> js_error + bool" where
  "allowed a e =
     (case a of
        Arr vs \<Rightarrow> Inr (name_val e \<in> set vs)
      | Str s \<Rightarrow> Inr (sublist (name_text e) s)
      | _ \<Rightarrow> Inl TypeError)"

fun filter_allowed :: "jsval \<Rightarrow> extension list \<Rightarrow> js_error + extension list" where
  "filter_allowed a [] = Inr []"
| "filter_allowed a (e # es) =
     (case allowed a e of
        Inl err \<Rightarrow> Inl err
      | Inr b \<Rightarrow>
          (case filter_allowed a es of
             Inl err \<Rightarrow> Inl err
           | Inr r \<Rightarrow> Inr (if b then e # r else r)))"

text \<open>
  The first lines of \<^verbatim>\<open>ExtensionsManager.init\<close> rewrite \<^verbatim>\<open>options.discover\<close> into an
  array (the comparison is with the string \<^verbatim>\<open>'undefined'\<close>, as written).
\<close>

definition normalise_discover :: "js_object \<Rightarrow> js_object" where
  "normalise_discover opts =
     (let d = get_prop opts ''discover'' in
      if d = Str ''undefined'' then put_prop ''discover'' (Arr [Bool False, Num 0]) opts
      else
        (case d of
           Bool b \<Rightarrow> put_prop ''discover'' (Arr [d, Num 2, get_prop opts ''appDirectory'']) opts
         | Str s \<Rightarrow> put_prop ''discover'' (Arr [Bool True, Num 2, d]) opts
         | _ \<Rightarrow> opts))"

text \<open>\<^verbatim>\<open>Array.prototype.shift\<close>.\<close>

fun shift :: "jsval list \<Rightarrow> jsval \<times> jsval list" where
  "shift [] = (Undefined, [])"
| "shift (x # xs) = (x, xs)"

text \<open>
  The second half of \<^verbatim>\<open>ExtensionsManager.init\<close>, up to its last statement:
  \<^verbatim>\<open>
    this.availableExtensions = this.availableExtensions.concat(this.usedExtensions);
    if (this.kites.options.extensions) {
      let allowedExtensions = this.kites.options.extensions as string[];
      this.availableExtensions = this.availableExtensions.filter(e => allowedExtensions.indexOf(e.name) > -1);
    }
    this.availableExtensions.sort(sorter);
  \<close>
  The result is the state and either the error thrown or the list that
  \<^verbatim>\<open>this.useMany(this.availableExtensions)\<close> is called with.
\<close>

definition collect :: "environment \<Rightarrow> kites \<Rightarrow> kites \<times> (js_error + extension list)" where
  "collect env st =
     (let av = availableExtensions st @ usedExtensions st;
          allow = get_prop (options st) ''extensions'' in
      case (if truthy allow then filter_allowed allow av else Inr av) of
        Inl err \<Rightarrow> (st\<lparr>availableExtensions := av\<rparr>, Inl err)
      | Inr av1 \<Rightarrow>
          (st\<lparr>availableExtensions := sort_by_cmp (sorter env) av1\<rparr>,
           Inr (sort_by_cmp (sorter env) av1)))"

text \<open>
  The argument of the call of \<^verbatim>\<open>discover\<close>: the caching options, the environment
  tag and the temporary directory from the options, and the depth and the directories
  taken from \<^verbatim>\<open>options.discover\<close>.
\<close>

definition discover_args :: "js_object \<Rightarrow> jsval \<Rightarrow> jsval list \<Rightarrow> discover_options" where
  "discover_args opts depth directories =
     \<lparr>d_cacheAvailableExtensions = get_prop opts ''cacheAvailableExtensions'',
      d_extensionsLocationCache = get_prop opts ''extensionsLocationCache'',
      d_env = get_prop opts ''env'',
      d_depth = depth,
      d_rootDirectory = directories,
      d_tempDirectory = get_prop opts ''tempDirectory''\<rparr>"

definition ExtensionsManager_init :: "environment \<Rightarrow> kites \<Rightarrow> kites \<times> (js_error + extension list)" where
  "ExtensionsManager_init env st =
     (let st0 = st\<lparr>availableExtensions := [], options := normalise_discover (options st)\<rparr> in
      case get_prop (options st0) ''discover'' of
        Arr xs \<Rightarrow>
          (case shift xs of
             (autodiscover, xs1) \<Rightarrow>
               if truthy autodiscover then
                 (case shift xs1 of
                    (depth, xs2) \<Rightarrow>
                      (let found = discover env (discover_args (options st0) depth xs2)
                       in collect env
                            (log [Log_discovered (length found)]
                               (st0\<lparr>options := put_prop ''discover'' (Arr xs2) (options st0),
                                    availableExtensions := found\<rparr>))))
               else collect env
                      (log [Log_autodiscover_off]
                         (st0\<lparr>options := put_prop ''discover'' (Arr xs1) (options st0)\<rparr>)))
      | _ \<Rightarrow> (st0, Inl TypeError))"

text \<open>
  The last statement of \<^verbatim>\<open>ExtensionsManager.init\<close>,
  \<^verbatim>\<open>return this.useMany(this.availableExtensions)\<close>, and the promise jobs that follow
  until the queue is empty.  The job \<open>Init_thenable\<close> is queued when the promise of
  \<^verbatim>\<open>useMany\<close> is returned from the async function, after the jobs \<^verbatim>\<open>useMany\<close> queued.
  The promises are those of this call: nothing has subscribed or settled yet.
\<close>

definition activate :: "environment \<Rightarrow> extension list \<Rightarrow> kites \<Rightarrow> kites" where
  "activate env extensions st =
     (case useMany extensions (st\<lparr>init_waiting := False, init_result := None\<rparr>) of
        (st1, exts1, q) \<Rightarrow>
          drain env (q @ [Init_thenable]) (st1\<lparr>availableExtensions := exts1\<rparr>))"

text \<open>
  \<^verbatim>\<open>KitesInstance.init()\<close>.  The result is the final state; \<open>init_result\<close> is the state
  of the promise \<^verbatim>\<open>init()\<close> returned.
\<close>

definition Kites_init :: "environment \<Rightarrow> kites \<Rightarrow> kites" where
  "Kites_init env st =
     (case initOptions env st of
        (st1, Some err) \<Rightarrow> st1\<lparr>init_result := Some (Rejected err)\<rparr>
      | (st1, None) \<Rightarrow>
          (case ExtensionsManager_init env (silence_logs (log [Log_initializing] st1)) of
             (st2, Inl err) \<Rightarrow> st2\<lparr>init_result := Some (Rejected err)\<rparr>
           | (st2, Inr exts) \<Rightarrow> activate env exts st2))"

text \<open>\<^verbatim>\<open>KitesInstance.use(extension)\<close> forwards to the manager and returns \<^verbatim>\<open>this\<close>.\<close>

definition Kites_use :: "js_function + extension \<Rightarrow> kites \<Rightarrow> kites" where
  "Kites_use extension st = use extension st"

section \<open>Vocabulary for the properties of a run\<close>

text \<open>The events a call adds to the trace of the state it started in.\<close>

definition new_events :: "kites \<Rightarrow> kites \<Rightarrow> event list" where
  "new_events st st1 = drop (length (trace st)) (trace st1)"

fun is_Invoked :: "event \<Rightarrow> bool" where
  "is_Invoked (Invoked i) = True"
| "is_Invoked ev = False"

text \<open>
  An extension whose entry point \<^verbatim>\<open>useOne\<close> will call: its merged options do not set
  \<^verbatim>\<open>enabled\<close> to \<^verbatim>\<open>false\<close>, and the descriptor has an entry point.
\<close>

definition has_entry :: "environment \<Rightarrow> extension \<Rightarrow> bool" where
  "has_entry env e = (case entry_of env e of Call acts \<Rightarrow> True | _ \<Rightarrow> False)"

definition disabled :: "js_object \<Rightarrow> extension \<Rightarrow> bool" where
  "disabled opts e = (get_prop (merged_options opts e) ''enabled'' = Bool False)"

definition starts :: "environment \<Rightarrow> js_object \<Rightarrow> extension \<Rightarrow> bool" where
  "starts env opts e = (\<not> disabled opts e \<and> has_entry env e)"

text \<open>The descriptor an event or a job of a chain belongs to.\<close>

fun event_index :: "event \<Rightarrow> nat option" where
  "event_index (Log_skipping i) = Some i"
| "event_index (Log_was_disabled i) = Some i"
| "event_index (Invoked i) = Some i"
| "event_index (Async_settled i ok) = Some i"
| "event_index (Emit_registered i) = Some i"
| "event_index (Settled i r) = Some i"
| "event_index ev = None"

fun job_index :: "job \<Rightarrow> nat option" where
  "job_index (Then_main i e) = Some i"
| "job_index (Resolve_thenable i e r) = Some i"
| "job_index (Settle_first i e r) = Some i"
| "job_index (Then_registered i e) = Some i"
| "job_index (Skip_registered i e x) = Some i"
| "job_index (Catch_handler i e x) = Some i"
| "job_index (Skip_catch i) = Some i"
| "job_index (Async_step i k ok) = Some i"
| "job_index j = None"

text \<open>
  Strictly sequential activation, on a trace: when the entry point of descriptor
  \<open>i + 1\<close> is invoked, the promise of the activation of descriptor \<open>i\<close> has
  settled.  (\<open>settled\<close> collects the indices settled so far.)
\<close>

fun sequential_from :: "nat list \<Rightarrow> event list \<Rightarrow> bool" where
  "sequential_from settled [] = True"
| "sequential_from settled (Invoked i # tr) =
     ((case i of 0 \<Rightarrow> True | Suc n \<Rightarrow> n \<in> set settled) \<and> sequential_from settled tr)"
| "sequential_from settled (Settled i r # tr) = sequential_from (i # settled) tr"
| "sequential_from settled (ev # tr) = sequential_from settled tr"

definition strictly_sequential :: "event list \<Rightarrow> bool" where
  "strictly_sequential tr = sequential_from [] tr"

text \<open>The event of the call of the entry point, for the job that makes it.\<close>

fun invoked_by :: "environment \<Rightarrow> job \<Rightarrow> event list" where
  "invoked_by env (Then_main i e) = (if has_entry env e then [Invoked i] else [])"
| "invoked_by env j = []"

text \<open>
  What \<^verbatim>\<open>useMany\<close> does with a list of descriptors, written out: the events of the
  skipped descriptors, the descriptors with their merged options, the jobs of \<open>f\<close>
  for the descriptors that are not disabled, and the reactions of \<^verbatim>\<open>Promise.all\<close> for
  those that are.
\<close>

definition with_merged :: "js_object \<Rightarrow> extension \<Rightarrow> extension" where
  "with_merged opts e = e\<lparr>ext_options := Some (merged_options opts e)\<rparr>"

fun skip_events :: "js_object \<Rightarrow> nat \<Rightarrow> extension list \<Rightarrow> event list" where
  "skip_events opts k [] = []"
| "skip_events opts k (e # es) =
     (if disabled opts e then [Log_skipping k, Settled k Fulfilled] else []) @ skip_events opts (Suc k) es"

fun chain_heads :: "js_object \<Rightarrow> nat \<Rightarrow> extension list \<Rightarrow> job list" where
  "chain_heads opts k [] = []"
| "chain_heads opts k (e # es) =
     (if disabled opts e then [] else [Then_main k (with_merged opts e)]) @ chain_heads opts (Suc k) es"

fun resolved_at_once :: "js_object \<Rightarrow> nat \<Rightarrow> extension list \<Rightarrow> job list" where
  "resolved_at_once opts k [] = []"
| "resolved_at_once opts k (e # es) =
     (if disabled opts e then [All_resolveElement k] else []) @ resolved_at_once opts (Suc k) es"

section \<open>Vocabulary for a failing activation\<close>

text \<open>What the body of an entry point throws: its first \<open>Throw\<close>.\<close>

fun thrown_by :: "action list \<Rightarrow> thrown option" where
  "thrown_by [] = None"
| "thrown_by (Throw x # acts) = Some x"
| "thrown_by (a # acts) = thrown_by acts"

text \<open>The reason of \<^verbatim>\<open>Promise.reject('Invalid kites extension: ' + extension.name)\<close>.\<close>

definition invalid_reason :: "extension \<Rightarrow> thrown" where
  "invalid_reason e = Thrown_string (''Invalid kites extension: '' @ name_text e)"

text \<open>
  What the call of the entry point throws inside the callback \<open>f\<close>: thrown by the
  entry point itself, or by \<^verbatim>\<open>require\<close> and the call of what it returned.
\<close>

definition sync_failure :: "environment \<Rightarrow> extension \<Rightarrow> thrown option" where
  "sync_failure env e =
     (case entry_of env e of
        Call acts \<Rightarrow> thrown_by acts
      | Load_failed x \<Rightarrow> Some x
      | Invalid \<Rightarrow> None)"

text \<open>The error the \<^verbatim>\<open>catch\<close> callback throws for a reason \<open>x\<close>.\<close>

definition catch_error :: "extension \<Rightarrow> thrown \<Rightarrow> js_error" where
  "catch_error e x = (case stack_text x of None \<Rightarrow> TypeError | Some stack \<Rightarrow> Error (errorMsg e stack))"

text \<open>
  For the race between the chains: the number of further jobs of its chain after which
  \<open>All_reject\<close> runs (\<open>None\<close>: the chain of the job does not reject), the error it
  will carry, and whether the chain of the job ends in \<open>All_resolveElement\<close>.
\<close>

fun reject_depth :: "environment \<Rightarrow> job \<Rightarrow> nat option" where
  "reject_depth env (All_reject err) = Some 0"
| "reject_depth env (Catch_handler i e x) = Some 1"
| "reject_depth env (Skip_registered i e x) = Some 2"
| "reject_depth env (Settle_first i e (Some x)) = Some 3"
| "reject_depth env (Resolve_thenable i e (Some x)) = Some 4"
| "reject_depth env (Then_main i e) =
     (case entry_of env e of
        Call acts \<Rightarrow> (case thrown_by acts of None \<Rightarrow> None | Some x \<Rightarrow> Some 3)
      | Load_failed x \<Rightarrow> Some 3
      | Invalid \<Rightarrow> Some 5)"
| "reject_depth env j = None"

fun rejects_with :: "environment \<Rightarrow> job \<Rightarrow> js_error option" where
  "rejects_with env (All_reject err) = Some err"
| "rejects_with env (Catch_handler i e x) = Some (catch_error e x)"
| "rejects_with env (Skip_registered i e x) = Some (catch_error e x)"
| "rejects_with env (Settle_first i e (Some x)) = Some (catch_error e x)"
| "rejects_with env (Resolve_thenable i e (Some x)) = Some (catch_error e x)"
| "rejects_with env (Then_main i e) =
     (case entry_of env e of
        Call acts \<Rightarrow> map_option (catch_error e) (thrown_by acts)
      | Load_failed x \<Rightarrow> Some (catch_error e x)
      | Invalid \<Rightarrow> Some (catch_error e (invalid_reason e)))"
| "rejects_with env j = None"

fun fulfils :: "environment \<Rightarrow> job \<Rightarrow> bool" where
  "fulfils env (Then_main i e) =
     (case entry_of env e of Call acts \<Rightarrow> thrown_by acts = None | _ \<Rightarrow> False)"
| "fulfils env (Resolve_thenable i e None) = True"
| "fulfils env (Settle_first i e None) = True"
| "fulfils env (Then_registered i e) = True"
| "fulfils env (Skip_catch i) = True"
| "fulfils env (All_resolveElement i) = True"
| "fulfils env j = False"

fun is_resolveElement :: "job \<Rightarrow> bool" where
  "is_resolveElement (All_resolveElement i) = True"
| "is_resolveElement j = False"

fun is_All :: "job \<Rightarrow> bool" where
  "is_All (All_resolveElement i) = True"
| "is_All (All_reject err) = True"
| "is_All j = False"

text \<open>Invariants of the queue while a rejection with \<open>err\<close> is on its way.\<close>

definition slower :: "environment \<Rightarrow> nat \<Rightarrow> job \<Rightarrow> bool" where
  "slower env d j = (case reject_depth env j of None \<Rightarrow> True | Some d' \<Rightarrow> d < d')"

definition not_faster :: "environment \<Rightarrow> nat \<Rightarrow> job \<Rightarrow> bool" where
  "not_faster env d j = (case reject_depth env j of None \<Rightarrow> True | Some d' \<Rightarrow> d \<le> d')"

definition race :: "environment \<Rightarrow> js_error \<Rightarrow> job list \<Rightarrow> kites \<Rightarrow> bool" where
  "race env err q st =
     (all_result st = Some (Rejected err)
      \<or> (all_result st = None
         \<and> length (filter (fulfils env) q) < all_remaining st
         \<and> (\<exists>q1 jb q2 d. q = q1 @ jb # q2
               \<and> reject_depth env jb = Some d \<and> rejects_with env jb = Some err
               \<and> (\<forall>j\<in>set q1. slower env d j) \<and> (\<forall>j\<in>set q2. not_faster env d j))))"

text \<open>The deferred initializers the body of an entry point registers.\<close>

fun body_initializers :: "action list \<Rightarrow> string list" where
  "body_initializers [] = []"
| "body_initializers (Add_initializer l # acts) = l # body_initializers acts"
| "body_initializers (Throw x # acts) = []"
| "body_initializers (a # acts) = body_initializers acts"

text \<open>The jobs of the two \<^verbatim>\<open>init\<close> promises, and the events after the activation.\<close>

fun is_init_job :: "job \<Rightarrow> bool" where
  "is_init_job Init_thenable = True"
| "is_init_job (Init_settle r) = True"
| "is_init_job (Kites_resume r) = True"
| "is_init_job j = False"

fun is_finish :: "event \<Rightarrow> bool" where
  "is_finish (Fired l) = True"
| "is_finish Log_initialized = True"
| "is_finish (Emit_initialized b) = True"
| "is_finish ev = False"

definition phase :: "js_error \<Rightarrow> job list \<Rightarrow> kites \<Rightarrow> bool" where
  "phase err q st =
     ((filter is_init_job q = [Init_thenable] \<and> \<not> init_waiting st \<and> init_result st = None)
      \<or> (filter is_init_job q = [] \<and> init_waiting st \<and> all_result st = None \<and> init_result st = None)
      \<or> (filter is_init_job q = [Init_settle (Rejected err)] \<and> all_result st \<noteq> None \<and> init_result st = None)
      \<or> (filter is_init_job q = [Kites_resume (Rejected err)] \<and> all_result st \<noteq> None \<and> init_result st = None)
      \<or> (filter is_init_job q = [] \<and> all_result st \<noteq> None \<and> init_result st = Some (Rejected err)))"

definition will_fulfil :: "environment \<Rightarrow> js_object \<Rightarrow> extension \<Rightarrow> bool" where
  "will_fulfil env opts e =
     (disabled opts e \<or> (case entry_of env e of Call acts \<Rightarrow> thrown_by acts = None | _ \<Rightarrow> False))"

section \<open>Concrete inputs for the examples\<close>

text \<open>
  An environment with an empty file system, POSIX paths, no discovered extension and a
  comparator by the number of dependencies; and a few entry points.
\<close>

definition example_env :: environment where
  "example_env =
     \<lparr>existsSync = (\<lambda>p. False),
      path_isAbsolute = (\<lambda>p. take 1 p = ''/''),
      path_join = (\<lambda>a b. a @ ''/'' @ b),
      appRoot = ''/app'',
      node_env = [],
      parent_dirname = ''/app/src'',
      root_dirname = ''/app/node_modules'',
      nconf_get = (\<lambda>opts file. opts),
      require_module = (\<lambda>p. Inl (Thrown_Error ''Error: Cannot find module'')),
      discover = (\<lambda>d. []),
      sorter = (\<lambda>a b. int (length (dependencies a)) - int (length (dependencies b)))\<rparr>"

definition fn_logging :: js_function where
  "fn_logging = \<lparr>fn_name = ''logging'', body = []\<rparr>"

definition fn_router :: js_function where
  "fn_router = \<lparr>fn_name = ''router'', body = [Add_initializer ''routes'']\<rparr>"

definition fn_broken :: js_function where
  "fn_broken = \<lparr>fn_name = ''broken'', body = [Throw (Thrown_Error ''Error: boom'')]\<rparr>"

definition fn_rejecting :: js_function where
  "fn_rejecting = \<lparr>fn_name = ''rejecting'', body = [Start_async 0 False]\<rparr>"

definition fn_slow :: js_function where
  "fn_slow = \<lparr>fn_name = ''slow'', body = [Start_async 20 True]\<rparr>"

definition ext_env :: extension where
  "ext_env =
     \<lparr>name = Some ''Env'',
      dependencies = [],
      directory = None,
      main = Main_function \<lparr>fn_name = ''env'', body = []\<rparr>,
      init = None,
      ext_options = Some [(''port'', Num 3000)]\<rparr>"

definition ext_express :: extension where
  "ext_express =
     \<lparr>name = Some ''Express'',
      dependencies = [],
      directory = Some ''/app/node_modules/express'',
      main = Main_function \<lparr>fn_name = ''express'', body = []\<rparr>,
      init = None,
      ext_options = Some [(''port'', Num 3000), (''static'', Str ''public'')]\<rparr>"

text \<open>
  An environment whose discovery finds two extensions, \<^verbatim>\<open>D\<close> and \<^verbatim>\<open>A\<close>, in that order.
\<close>

definition ext_A :: extension where
  "ext_A =
     \<lparr>name = Some ''A'',
      dependencies = [],
      directory = Some ''/app/node_modules/a'',
      main = Main_function \<lparr>fn_name = ''a'', body = []\<rparr>,
      init = None,
      ext_options = None\<rparr>"

definition ext_D :: extension where
  "ext_D =
     \<lparr>name = Some ''D'',
      dependencies = [],
      directory = Some ''/app/node_modules/d'',
      main = Main_function \<lparr>fn_name = ''d'', body = []\<rparr>,
      init = None,
      ext_options = None\<rparr>"

definition discovering_env :: environment where
  "discovering_env = example_env\<lparr>discover := (\<lambda>d. [ext_D, ext_A])\<rparr>"

section \<open>Properties of the option accessors\<close>

lemma split_colon_nonempty: "split_colon s \<noteq> []"
  by (induction s) (auto split: list.splits)

text \<open>
  Claim C9.  For every option key whose colon-split token count is neither 1 nor 2
  (for instance \<^verbatim>\<open>'a:b:c'\<close>), \<^verbatim>\<open>set(option, value)\<close> raises nothing and leaves the
  whole options object unchanged.
\<close>

theorem set_other_token_count_noop:
  assumes "length (split_colon option) \<noteq> 1" and "length (split_colon option) \<noteq> 2"
  shows "kites_set opts option v = Inr opts"
proof (cases "split_colon option")
  case Nil
  then show ?thesis by (simp add: kites_set_def)
next
  case (Cons t0 ts)
  note outer = Cons
  show ?thesis
  proof (cases ts)
    case Nil
    with outer assms show ?thesis by simp
  next
    case (Cons t1 us)
    with outer assms obtain t2 vs where "us = t2 # vs"
      by (cases us) auto
    with outer Cons show ?thesis by (simp add: kites_set_def)
  qed
qed

theorem set_other_token_count_noop_witness:
  "length (split_colon ''a:b:c'') = 3
   \<and> kites_set [(''a'', Obj [(''b'', Num 1)])] ''a:b:c'' (Str ''x'')
       = Inr [(''a'', Obj [(''b'', Num 1)])]
   \<and> length (split_colon ''::'') = 3
   \<and> kites_set [(''env'', Str ''test'')] ''::'' (Str ''x'') = Inr [(''env'', Str ''test'')]"
proof -
  have a: "length (split_colon ''a:b:c'') = 3" and b: "length (split_colon ''::'') = 3"
    by simp_all
  have a1: "length (split_colon ''a:b:c'') \<noteq> 1" and a2: "length (split_colon ''a:b:c'') \<noteq> 2"
    using a by simp_all
  have b1: "length (split_colon ''::'') \<noteq> 1" and b2: "length (split_colon ''::'') \<noteq> 2"
    using b by simp_all
  show ?thesis
    using a b set_other_token_count_noop [OF a1 a2] set_other_token_count_noop [OF b1 b2]
    by simp
qed

text \<open>
  Claim C10.  \<^verbatim>\<open>defaultOption\<close> returns the supplied default whenever the stored
  value is falsy (\<^verbatim>\<open>false\<close>, \<^verbatim>\<open>0\<close>, the empty string, \<^verbatim>\<open>null\<close> or
  \<^verbatim>\<open>undefined\<close>), not only when the option is absent; a stored \<^verbatim>\<open>false\<close> is
  replaced by the default.
\<close>

theorem defaultOption_falsy_gives_default:
  assumes "get_prop opts option \<in> {Bool False, Num 0, Str [], Null, Undefined}"
  shows "defaultOption opts option d = d"
  using assms by (auto simp: defaultOption_def)

theorem defaultOption_falsy_gives_default_witness:
  "get_prop [(''discover'', Bool False)] ''discover'' \<in> {Bool False, Num 0, Str [], Null, Undefined}
   \<and> defaultOption [(''discover'', Bool False)] ''discover'' (Bool True) = Bool True
   \<and> defaultOption [(''port'', Num 0)] ''port'' (Num 3000) = Num 3000
   \<and> defaultOption [(''env'', Str [])] ''env'' (Str ''development'') = Str ''development''
   \<and> defaultOption [(''logger'', Null)] ''logger'' (Obj []) = Obj []
   \<and> defaultOption [] ''missing'' (Num 7) = Num 7"
proof -
  have h1: "get_prop [(''discover'', Bool False)] ''discover'' \<in> {Bool False, Num 0, Str [], Null, Undefined}"
    by (simp add: get_prop_def)
  have h2: "get_prop [(''port'', Num 0)] ''port'' \<in> {Bool False, Num 0, Str [], Null, Undefined}"
    by (simp add: get_prop_def)
  have h3: "get_prop [(''env'', Str [])] ''env'' \<in> {Bool False, Num 0, Str [], Null, Undefined}"
    by (simp add: get_prop_def)
  have h4: "get_prop [(''logger'', Null)] ''logger'' \<in> {Bool False, Num 0, Str [], Null, Undefined}"
    by (simp add: get_prop_def)
  have h5: "get_prop [] ''missing'' \<in> {Bool False, Num 0, Str [], Null, Undefined}"
    by (simp add: get_prop_def)
  show ?thesis
    using h1 defaultOption_falsy_gives_default [OF h1] defaultOption_falsy_gives_default [OF h2]
      defaultOption_falsy_gives_default [OF h3] defaultOption_falsy_gives_default [OF h4]
      defaultOption_falsy_gives_default [OF h5]
    by simp
qed


section \<open>Option merging\<close>

lemma map_of_put_prop: "map_of (put_prop k v obj) = (map_of obj)(k \<mapsto> v)"
  by (simp add: put_prop_def update_conv')

lemma map_of_assign:
  "distinct (map fst src) \<Longrightarrow> map_of (assign target src) = map_of target ++ map_of src"
proof (induction src arbitrary: target)
  case Nil
  then show ?case by (simp add: assign_def)
next
  case (Cons kv src)
  obtain k v where kv: "kv = (k, v)" by (cases kv)
  from Cons.prems kv have fresh: "map_of src k = None" and d: "distinct (map fst src)"
    by (auto simp: map_of_eq_None_iff)
  have "map_of (assign target (kv # src)) = map_of (assign (put_prop k v target) src)"
    by (simp add: assign_def kv)
  also have "\<dots> = (map_of target)(k \<mapsto> v) ++ map_of src"
    by (simp only: Cons.IH [OF d] map_of_put_prop)
  also have "\<dots> = map_of target ++ map_of (kv # src)"
    using fresh by (auto simp: kv map_add_def fun_eq_iff split: option.splits)
  finally show ?case .
qed

lemma digit_inj:
  assumes "a < 10" "b < 10" "''0123456789'' ! a = ''0123456789'' ! b"
  shows "a = b"
proof -
  have d: "distinct ''0123456789''" by simp
  have "a < length ''0123456789''" "b < length ''0123456789''" using assms by simp_all
  with d assms(3) show ?thesis by (simp add: nth_eq_iff_index_eq)
qed

lemma string_of_nat_nonempty: "string_of_nat n \<noteq> []"
  by (subst string_of_nat.simps) simp

lemma string_of_nat_last: "last (string_of_nat n) = ''0123456789'' ! (n mod 10)"
  by (subst string_of_nat.simps) simp

lemma string_of_nat_butlast:
  "butlast (string_of_nat n) = (if n < 10 then [] else string_of_nat (n div 10))"
  by (subst string_of_nat.simps) simp

lemma string_of_nat_inj: "string_of_nat m = string_of_nat n \<Longrightarrow> m = n"
proof (induction m arbitrary: n rule: string_of_nat.induct)
  case (1 m)
  from "1.prems" have l: "''0123456789'' ! (m mod 10) = ''0123456789'' ! (n mod 10)"
    using string_of_nat_last [of m] string_of_nat_last [of n] by simp
  then have md: "m mod 10 = n mod 10" by (intro digit_inj) simp_all
  from "1.prems" have b: "butlast (string_of_nat m) = butlast (string_of_nat n)" by simp
  show ?case
  proof (cases "m < 10")
    case True
    with b have "n < 10"
      using string_of_nat_butlast [of m] string_of_nat_butlast [of n] string_of_nat_nonempty [of "n div 10"]
      by (auto split: if_splits)
    with True md show ?thesis by simp
  next
    case False
    with b have n: "\<not> n < 10" and e: "string_of_nat (m div 10) = string_of_nat (n div 10)"
      using string_of_nat_butlast [of m] string_of_nat_butlast [of n] string_of_nat_nonempty [of "m div 10"]
      by (auto split: if_splits)
    from "1.IH" [OF False e] have "m div 10 = n div 10" .
    with md show ?thesis by (metis div_mult_mod_eq)
  qed
qed

lemma distinct_indexed: "distinct (map fst (indexed xs))"
proof -
  have "map fst (indexed xs) = map string_of_nat [0..<length xs]"
    by (simp add: indexed_def)
  moreover have "distinct (map string_of_nat [0..<length xs])"
    by (simp add: distinct_map inj_on_def string_of_nat_inj)
  ultimately show ?thesis by simp
qed

lemma distinct_own_props:
  "(\<And>kvs. v = Obj kvs \<Longrightarrow> distinct (map fst kvs)) \<Longrightarrow> distinct (map fst (own_props v))"
  by (cases v) (simp_all add: own_props_def distinct_indexed)

text \<open>
  Claim C4.  Before activation the options of an extension are the shallow merge of
  its own default options with the runtime-configuration namespace keyed by its
  lower-cased name; the runtime values take precedence: a key present in the namespace
  gets the runtime value, a key absent from it keeps its default.  The keys of the
  namespace are its own properties, as \<^verbatim>\<open>_.assign\<close> sees them: those of an object, or
  the indices of a string or an array.  (Objects have no duplicate keys.)
\<close>

theorem useOne_merges_options:
  assumes "name e = Some n"
    and "distinct (map fst (own_options e))"
    and "\<forall>kvs. get_prop (options st) (toLowerCase n) = Obj kvs \<longrightarrow> distinct (map fst kvs)"
  shows "\<exists>m. ext_options (fst (snd (useOne i e st))) = Some m
           \<and> (\<forall>k. map_of m k =
                 (case map_of (own_props (get_prop (options st) (toLowerCase n))) k of
                    Some v \<Rightarrow> Some v
                  | None \<Rightarrow> map_of (own_options e) k))"
proof -
  have key: "options_key e = toLowerCase n"
    using assms(1) by (simp add: options_key_def toLowerCase_def)
  have d: "distinct (map fst (own_props (get_prop (options st) (toLowerCase n))))"
    using assms(3) by (intro distinct_own_props) simp
  have m: "map_of (merged_options (options st) e)
             = map_of (own_options e) ++ map_of (own_props (get_prop (options st) (toLowerCase n)))"
    using assms(2) d by (simp add: merged_options_def key map_of_assign)
  have "ext_options (fst (snd (useOne i e st))) = Some (merged_options (options st) e)"
    by (simp add: useOne_def Let_def)
  with m show ?thesis
    by (auto simp: map_add_def split: option.splits)
qed

theorem useOne_merges_options_witness:
  "ext_options (fst (snd (useOne 0 ext_express
       (new_kites example_env [(''express'', Obj [(''port'', Num 8080), (''views'', Str ''tpl'')])]))))
     = Some [(''port'', Num 8080), (''static'', Str ''public''), (''views'', Str ''tpl'')]
   \<and> (\<exists>m. ext_options (fst (snd (useOne 0 ext_express
              (new_kites example_env [(''express'', Obj [(''port'', Num 8080), (''views'', Str ''tpl'')])]))))
             = Some m
          \<and> map_of m ''port'' = Some (Num 8080)
          \<and> map_of m ''static'' = Some (Str ''public''))
   \<and> get_prop (options (new_kites example_env [])) ''env'' = Str ''development''
   \<and> (\<exists>m. ext_options (fst (snd (useOne 0 ext_env (new_kites example_env [])))) = Some m
          \<and> map_of m ''0'' = Some (Str ''d'')
          \<and> map_of m ''10'' = Some (Str ''t'')
          \<and> map_of m ''port'' = Some (Num 3000))"
proof -
  let ?st = "new_kites example_env [(''express'', Obj [(''port'', Num 8080), (''views'', Str ''tpl'')])]"
  have n: "name ext_express = Some ''Express''"
    by (simp add: ext_express_def)
  have d1: "distinct (map fst (own_options ext_express))"
    by (simp add: ext_express_def own_options_def)
  have low: "toLowerCase ''Express'' = ''express''"
    by code_simp
  have g: "get_prop (options ?st) ''express'' = Obj [(''port'', Num 8080), (''views'', Str ''tpl'')]"
    by code_simp
  have ns: "own_props (get_prop (options ?st) ''express'') = [(''port'', Num 8080), (''views'', Str ''tpl'')]"
    by code_simp
  have d2: "\<forall>kvs. get_prop (options ?st) (toLowerCase ''Express'') = Obj kvs \<longrightarrow> distinct (map fst kvs)"
    by (simp add: low g)
  have v: "ext_options (fst (snd (useOne 0 ext_express ?st)))
             = Some [(''port'', Num 8080), (''static'', Str ''public''), (''views'', Str ''tpl'')]"
    by code_simp
  from useOne_merges_options [OF n d1 d2, of 0]
  obtain m where m: "ext_options (fst (snd (useOne 0 ext_express ?st))) = Some m"
    and all: "\<forall>k. map_of m k =
                 (case map_of (own_props (get_prop (options ?st) (toLowerCase ''Express''))) k of
                    Some v \<Rightarrow> Some v
                  | None \<Rightarrow> map_of (own_options ext_express) k)"
    by blast
  have "map_of m ''port'' = Some (Num 8080)"
    using all by (simp add: low ns)
  moreover have "map_of m ''static'' = Some (Str ''public'')"
    using all by (simp add: low ns ext_express_def own_options_def)
  ultimately have ex1: "\<exists>m. ext_options (fst (snd (useOne 0 ext_express ?st))) = Some m
          \<and> map_of m ''port'' = Some (Num 8080)
          \<and> map_of m ''static'' = Some (Str ''public'')"
    using m by blast
  let ?st2 = "new_kites example_env []"
  have n2: "name ext_env = Some ''Env''"
    by (simp add: ext_env_def)
  have e1: "distinct (map fst (own_options ext_env))"
    by (simp add: ext_env_def own_options_def)
  have low2: "toLowerCase ''Env'' = ''env''"
    by code_simp
  have g2: "get_prop (options ?st2) ''env'' = Str ''development''"
    by code_simp
  have e2: "\<forall>kvs. get_prop (options ?st2) (toLowerCase ''Env'') = Obj kvs \<longrightarrow> distinct (map fst kvs)"
    by (simp add: low2 g2)
  have k0: "map_of (own_props (Str ''development'')) ''0'' = Some (Str ''d'')"
    by code_simp
  have k10: "map_of (own_props (Str ''development'')) ''10'' = Some (Str ''t'')"
    by code_simp
  have kp: "map_of (own_props (Str ''development'')) ''port'' = None"
    by code_simp
  from useOne_merges_options [OF n2 e1 e2, of 0]
  obtain m2 where m2: "ext_options (fst (snd (useOne 0 ext_env ?st2))) = Some m2"
    and all2: "\<forall>k. map_of m2 k =
                 (case map_of (own_props (get_prop (options ?st2) (toLowerCase ''Env''))) k of
                    Some v \<Rightarrow> Some v
                  | None \<Rightarrow> map_of (own_options ext_env) k)"
    by blast
  have "map_of m2 ''0'' = Some (Str ''d'')"
    using all2 by (simp add: low2 g2 k0)
  moreover have "map_of m2 ''10'' = Some (Str ''t'')"
    using all2 by (simp add: low2 g2 k10)
  moreover have "map_of m2 ''port'' = Some (Num 3000)"
    using all2 by (simp add: low2 g2 kp ext_env_def own_options_def)
  ultimately have ex2: "\<exists>m. ext_options (fst (snd (useOne 0 ext_env ?st2))) = Some m
          \<and> map_of m ''0'' = Some (Str ''d'')
          \<and> map_of m ''10'' = Some (Str ''t'')
          \<and> map_of m ''port'' = Some (Num 3000)"
    using m2 by blast
  show ?thesis
    by (intro conjI) (rule v, rule ex1, rule g2, rule ex2)
qed

section \<open>Configuration files\<close>

text \<open>
  Claim C8, as stated: for every instance whose options refer to a configuration file
  that does not exist, the startup sequence raises an error before any entry point is
  invoked.  It fails when configuration loading is not enabled: \<^verbatim>\<open>_initOptions\<close>
  looks at \<^verbatim>\<open>options.configFile\<close> only under \<^verbatim>\<open>if (this.options.loadConfig)\<close>.
  Here the options name \<^verbatim>\<open>missing.json\<close>, no file exists, and \<^verbatim>\<open>init()\<close> is
  fulfilled.
\<close>

theorem missing_config_file_without_loadConfig_counterexample:
  "get_prop (options (new_kites example_env [(''configFile'', Str ''missing.json'')])) ''configFile''
     = Str ''missing.json''
   \<and> \<not> existsSync example_env (path_join example_env ''/app'' ''missing.json'')
   \<and> init_result (Kites_init example_env (new_kites example_env [(''configFile'', Str ''missing.json'')]))
     = Some Fulfilled"
  by code_simp

text \<open>
  Claim C8, amended: for every instance whose options enable configuration loading
  (\<^verbatim>\<open>loadConfig\<close> is truthy) and name a configuration file (a non-empty string) that
  does not exist, at its absolute path or else under the application directory,
  \<^verbatim>\<open>init()\<close> is rejected with the error \<^verbatim>\<open>Config file <name> was not found.\<close>, and
  nothing has happened before: no event, so no entry point was invoked.
\<close>

theorem missing_config_file_is_fatal:
  assumes "truthy (get_prop (options st) ''loadConfig'')"
    and "get_prop (options st) ''configFile'' = Str f"
    and "f \<noteq> []"
    and "appDirectory env (options st) = Str d"
    and "\<not> existsSync env (if path_isAbsolute env f then f else path_join env d f)"
  shows "init_result (Kites_init env st)
           = Some (Rejected (Error (''Config file '' @ f @ '' was not found.'')))
         \<and> trace (Kites_init env st) = trace st"
proof -
  have "loadConfig env st = (st, Some (Error (''Config file '' @ f @ '' was not found.'')))"
  proof (cases "path_isAbsolute env f")
    case True
    with assms(2-5) show ?thesis by (simp add: loadConfig_def Let_def join_path_def)
  next
    case False
    with assms(2-5) show ?thesis by (simp add: loadConfig_def Let_def join_path_def)
  qed
  then have "initOptions env st = (st, Some (Error (''Config file '' @ f @ '' was not found.'')))"
    using assms(1) by (simp add: initOptions_def)
  then show ?thesis
    by (simp add: Kites_init_def)
qed

theorem missing_config_file_is_fatal_witness:
  "truthy (get_prop (options (use (Inl fn_logging)
       (new_kites example_env [(''loadConfig'', Bool True), (''configFile'', Str ''missing.json'')])))
     ''loadConfig'')
   \<and> init_result (Kites_init example_env (use (Inl fn_logging)
       (new_kites example_env [(''loadConfig'', Bool True), (''configFile'', Str ''missing.json'')])))
     = Some (Rejected (Error ''Config file missing.json was not found.''))
   \<and> trace (Kites_init example_env (use (Inl fn_logging)
       (new_kites example_env [(''loadConfig'', Bool True), (''configFile'', Str ''missing.json'')])))
     = []"
proof -
  let ?st = "use (Inl fn_logging)
       (new_kites example_env [(''loadConfig'', Bool True), (''configFile'', Str ''missing.json'')])"
  have h1: "truthy (get_prop (options ?st) ''loadConfig'')" by code_simp
  have h2: "get_prop (options ?st) ''configFile'' = Str ''missing.json''" by code_simp
  have h3: "''missing.json'' \<noteq> []" by simp
  have h4: "appDirectory example_env (options ?st) = Str ''/app''" by code_simp
  have h5: "\<not> existsSync example_env
               (if path_isAbsolute example_env ''missing.json'' then ''missing.json''
                else path_join example_env ''/app'' ''missing.json'')"
    by code_simp
  have t: "trace ?st = []" by code_simp
  show ?thesis
    using missing_config_file_is_fatal [OF h1 h2 h3 h4 h5] h1 t by simp
qed

section \<open>The initialized notification\<close>

text \<open>
  Claim C6 says that the lifecycle state is already \<^verbatim>\<open>initialized\<close> when the
  \<^verbatim>\<open>initialized\<close> notification is emitted and the readiness promise resolves.  In
  \<^verbatim>\<open>KitesInstance.init\<close> the statement \<^verbatim>\<open>this.emit('initialized', this)\<close> comes before
  \<^verbatim>\<open>this.initialized = true\<close>: the listeners, the one that resolves \<^verbatim>\<open>isReady\<close>
  among them, run while \<^verbatim>\<open>isInitialized\<close> is still false.  The run below registers
  two extensions; the notification is the last event, after every activation has
  settled and the deferred initializer has run, it carries \<^verbatim>\<open>isInitialized = false\<close>,
  and the flag is true only in the final state.
\<close>

theorem initialized_emitted_before_flag_is_set:
  "trace (Kites_init example_env
       (use (Inl fn_router) (use (Inl fn_logging) (new_kites example_env []))))
     = [Log_initializing, Log_autodiscover_off, Invoked 0, Invoked 1,
        Emit_registered 0, Emit_registered 1, Settled 0 Fulfilled, Settled 1 Fulfilled,
        Fired ''routes'', Log_initialized, Emit_initialized False]
   \<and> initialized (Kites_init example_env
       (use (Inl fn_router) (use (Inl fn_logging) (new_kites example_env [])))) = True
   \<and> isReady (emit_initialized (new_kites example_env [])) = True
   \<and> initialized (emit_initialized (new_kites example_env [])) = False"
  by code_simp


section \<open>The job queue: general facts\<close>

lemma run_body_trace:
  "run_body i acts e st = (t, e1, st1, js) \<Longrightarrow> trace st1 = trace st"
proof (induction i acts e st arbitrary: t e1 st1 js rule: run_body.induct)
  case (4 i k ok acts e st)
  then show ?case by (auto split: prod.splits)
qed auto

lemma run_body_jobs:
  "run_body i acts e st = (t, e1, st1, js) \<Longrightarrow> \<forall>j\<in>set js. \<exists>k ok. j = Async_step i k ok"
proof (induction i acts e st arbitrary: t e1 st1 js rule: run_body.induct)
  case (4 i k ok acts e st)
  then show ?case by (auto split: prod.splits)
qed auto

lemma trace_log [simp]: "trace (log es st) = trace st @ es"
  by (simp add: log_def)

lemma trace_settle_all: "settle_all r st = (st1, js) \<Longrightarrow> trace st1 = trace st"
  by (auto simp: settle_all_def split: if_splits)

lemma settle_all_jobs: "settle_all r st = (st1, js) \<Longrightarrow> js = [] \<or> js = [Init_settle r]"
  by (auto simp: settle_all_def split: if_splits)

text \<open>A generic invariant rule for the queue.\<close>

lemma drain_invariant:
  "I q st \<Longrightarrow>
   (\<And>j q st st1 js. I (j # q) st \<Longrightarrow> exec env j st = (st1, js) \<Longrightarrow> I (q @ js) st1) \<Longrightarrow>
   I [] (drain env q st)"
proof (induction env q st rule: drain.induct)
  case (1 env st)
  then show ?case by simp
next
  case (2 env j q st)
  obtain st1 js where ex: "exec env j st = (st1, js)" by (cases "exec env j st")
  have "I (q @ js) st1" using "2.prems"(2) [OF "2.prems"(1) ex] .
  then have "I [] (drain env (q @ js) st1)"
    using "2.IH" [OF ex [symmetric]] "2.prems"(2) by blast
  with ex show ?case by simp
qed


lemma log_Nil [simp]: "log [] st = st"
  by (simp add: log_def)

lemma log_log [simp]: "log es (log ds st) = log (ds @ es) st"
  by (simp add: log_def)

lemma options_log [simp]: "options (log es st) = options st"
  by (simp add: log_def)

lemma map_useOne_eq:
  "map_useOne k exts st = (st1, rs) \<Longrightarrow>
     st1 = log (skip_events (options st) k exts) st
     \<and> map fst rs = map (with_merged (options st)) exts
     \<and> List.map_filter snd rs = chain_heads (options st) k exts
     \<and> all_subscribe k (map snd rs) = resolved_at_once (options st) k exts"
proof (induction exts arbitrary: k st st1 rs)
  case Nil
  then show ?case by (simp add: map_filter_simps)
next
  case (Cons e es)
  obtain st2 e1 p where u: "useOne k e st = (st2, e1, p)" by (cases "useOne k e st")
  obtain st3 rs' where m: "map_useOne (Suc k) es st2 = (st3, rs')"
    by (cases "map_useOne (Suc k) es st2")
  from Cons.prems u m have st1: "st1 = st3" and rs: "rs = (e1, p) # rs'" by auto
  note ih = Cons.IH [OF m]
  show ?case
  proof (cases "disabled (options st) e")
    case True
    with u have "st2 = log [Log_skipping k, Settled k Fulfilled] st" "e1 = with_merged (options st) e" "p = None"
      by (auto simp: useOne_def disabled_def with_merged_def Let_def)
    with ih st1 rs True show ?thesis by (simp add: map_filter_simps)
  next
    case False
    with u have "st2 = st" "e1 = with_merged (options st) e" "p = Some (Then_main k (with_merged (options st) e))"
      by (auto simp: useOne_def disabled_def with_merged_def Let_def)
    with ih st1 rs False show ?thesis by (simp add: map_filter_simps)
  qed
qed

lemma useMany_eq:
  "useMany exts st =
     ((log (skip_events (options st) 0 exts) st)
        \<lparr>all_remaining := length exts, all_result := (if exts = [] then Some Fulfilled else None)\<rparr>,
      map (with_merged (options st)) exts,
      chain_heads (options st) 0 exts @ resolved_at_once (options st) 0 exts)"
proof -
  obtain st1 rs where m: "map_useOne 0 exts st = (st1, rs)" by (cases "map_useOne 0 exts st")
  from map_useOne_eq [OF m] have
    a: "st1 = log (skip_events (options st) 0 exts) st"
    and b: "map fst rs = map (with_merged (options st)) exts"
    and c: "List.map_filter snd rs = chain_heads (options st) 0 exts"
    and d: "all_subscribe 0 (map snd rs) = resolved_at_once (options st) 0 exts"
    by simp_all
  from b have len: "length rs = length exts" by (metis length_map)
  then have "rs = [] \<longleftrightarrow> exts = []" by auto
  with m a b c d len show ?thesis by (simp add: useMany_def)
qed

lemma entry_of_with_merged [simp]: "entry_of env (with_merged opts e) = entry_of env e"
  by (cases "main e"; cases "directory e")
     (simp_all add: entry_of_def init_dispatch_def with_merged_def)

lemma has_entry_with_merged [simp]: "has_entry env (with_merged opts e) = has_entry env e"
  by (simp add: has_entry_def)

lemma exec_invoked:
  assumes "exec env j st = (st1, js)"
  shows "(\<exists>es. trace st1 = trace st @ es \<and> filter is_Invoked es = invoked_by env j)
         \<and> (\<forall>j'\<in>set js. invoked_by env j' = [])"
proof (cases j)
  case (Then_main i e)
  show ?thesis
  proof (cases "entry_of env e")
    case (Call acts)
    obtain t e1 st2 ks where rb: "run_body i acts e (log [Invoked i] st) = (t, e1, st2, ks)"
      by (cases "run_body i acts e (log [Invoked i] st)") auto
    from run_body_trace [OF rb] have tr: "trace st2 = trace st @ [Invoked i]" by simp
    from run_body_jobs [OF rb] have ks: "\<forall>j'\<in>set ks. invoked_by env j' = []" by auto
    from assms Then_main Call rb tr ks show ?thesis
      by (auto simp: has_entry_def split: option.splits)
  next
    case (Load_failed x)
    with assms Then_main show ?thesis by (auto simp: has_entry_def)
  next
    case Invalid
    with assms Then_main show ?thesis by (auto simp: has_entry_def)
  qed
next
  case (Settle_first i e r)
  with assms show ?thesis by (cases r) auto
next
  case (Kites_resume r)
  with assms show ?thesis
    by (cases r) (auto simp: finish_init_def fire_def emit_initialized_def Let_def filter_empty_conv)
next
  case (All_resolveElement i)
  with assms show ?thesis
    by (auto simp: Let_def split: if_splits dest: trace_settle_all settle_all_jobs)
next
  case (All_reject err)
  with assms show ?thesis
    by (auto dest: trace_settle_all settle_all_jobs)
qed (use assms in \<open>auto split: if_splits option.splits nat.splits\<close>)

lemma drain_invoked:
  "\<exists>es. trace (drain env q st) = trace st @ es
        \<and> filter is_Invoked es = concat (map (invoked_by env) q)"
proof -
  let ?I = "\<lambda>q' st'. \<exists>es. trace st' = trace st @ es
               \<and> filter is_Invoked es @ concat (map (invoked_by env) q') = concat (map (invoked_by env) q)"
  have "?I [] (drain env q st)"
  proof (rule drain_invariant [where I = ?I])
    show "?I q st" by simp
  next
    fix j q' st' st1 js
    assume inv: "?I (j # q') st'" and ex: "exec env j st' = (st1, js)"
    from inv obtain es where es: "trace st' = trace st @ es"
      and eq: "filter is_Invoked es @ concat (map (invoked_by env) (j # q')) = concat (map (invoked_by env) q)"
      by blast
    from exec_invoked [OF ex] obtain ds where ds: "trace st1 = trace st' @ ds"
      and f: "filter is_Invoked ds = invoked_by env j"
      and n: "\<forall>j'\<in>set js. invoked_by env j' = []"
      by blast
    from n have c: "concat (map (invoked_by env) js) = []" by simp
    from es eq ds f show "?I (q' @ js) st1" by (simp add: c)
  qed
  then show ?thesis by simp
qed


lemma skip_events_not_Invoked [simp]: "filter is_Invoked (skip_events opts k exts) = []"
  by (induction exts arbitrary: k) auto

lemma resolved_at_once_invoked [simp]:
  "concat (map (invoked_by env) (resolved_at_once opts k exts)) = []"
  by (induction exts arbitrary: k) auto

lemma chain_heads_invoked:
  "concat (map (invoked_by env) (chain_heads opts k exts))
     = map Invoked (filter (\<lambda>i. starts env opts (exts ! (i - k))) [k..<k + length exts])"
proof (induction exts arbitrary: k)
  case Nil
  then show ?case by simp
next
  case (Cons e es)
  have shift: "filter (\<lambda>i. starts env opts ((e # es) ! (i - k))) [Suc k..<Suc k + length es]
                 = filter (\<lambda>i. starts env opts (es ! (i - Suc k))) [Suc k..<Suc k + length es]"
  proof (rule filter_cong [OF refl])
    fix i assume "i \<in> set [Suc k..<Suc k + length es]"
    then have "i - k = Suc (i - Suc k)" by auto
    then show "starts env opts ((e # es) ! (i - k)) = starts env opts (es ! (i - Suc k))" by simp
  qed
  have upt: "[k..<k + length (e # es)] = k # [Suc k..<Suc k + length es]"
    using upt_conv_Cons [of k "k + length (e # es)"] by simp
  show ?case
    using Cons.IH [of "Suc k"] shift
    by (simp only: upt) (simp add: starts_def)
qed

lemma trace_drain_extends: "\<exists>es. trace (drain env q st) = trace st @ es"
  using drain_invoked [of env q st] by blast

lemma new_events_append: "trace st1 = trace st @ es \<Longrightarrow> new_events st st1 = es"
  by (simp add: new_events_def)

text \<open>The trace of \<^verbatim>\<open>activate\<close>: the synchronous events of \<^verbatim>\<open>useMany\<close>, then those of the jobs.\<close>

lemma activate_eq:
  "activate env exts st =
     drain env (chain_heads (options st) 0 exts @ resolved_at_once (options st) 0 exts @ [Init_thenable])
       (st\<lparr>init_waiting := False, init_result := None,
           trace := trace st @ skip_events (options st) 0 exts,
           all_remaining := length exts, all_result := (if exts = [] then Some Fulfilled else None),
           availableExtensions := map (with_merged (options st)) exts\<rparr>)"
  by (simp add: activate_def useMany_eq log_def)

lemma activate_invoked:
  "filter is_Invoked (new_events st (activate env exts st))
     = map Invoked (filter (\<lambda>i. starts env (options st) (exts ! i)) [0..<length exts])"
proof -
  let ?q = "chain_heads (options st) 0 exts @ resolved_at_once (options st) 0 exts @ [Init_thenable]"
  let ?st1 = "st\<lparr>init_waiting := False, init_result := None,
           trace := trace st @ skip_events (options st) 0 exts,
           all_remaining := length exts, all_result := (if exts = [] then Some Fulfilled else None),
           availableExtensions := map (with_merged (options st)) exts\<rparr>"
  from drain_invoked [of env ?q ?st1] obtain es
    where es: "trace (drain env ?q ?st1) = trace ?st1 @ es"
      and f: "filter is_Invoked es = concat (map (invoked_by env) ?q)"
    by blast
  have "trace (activate env exts st) = trace st @ (skip_events (options st) 0 exts @ es)"
    using es by (simp add: activate_eq)
  then have "new_events st (activate env exts st) = skip_events (options st) 0 exts @ es"
    by (rule new_events_append)
  then show ?thesis
    using f chain_heads_invoked [of env "options st" 0 exts] by simp
qed

lemma activate_invoked_index:
  assumes "Invoked i \<in> set (new_events st (activate env exts st))"
  shows "i < length exts \<and> starts env (options st) (exts ! i)"
proof -
  from assms have "Invoked i \<in> set (filter is_Invoked (new_events st (activate env exts st)))"
    by simp
  then have "Invoked i \<in> Invoked ` set (filter (\<lambda>i. starts env (options st) (exts ! i)) [0..<length exts])"
    by (simp only: activate_invoked set_map)
  then show ?thesis by auto
qed

lemma options_silence_logs [simp]: "options (silence_logs s) = options s"
  by (simp add: silence_logs_def Let_def)

lemma trace_silence_logs [simp]: "trace (silence_logs s) = trace s"
  by (simp add: silence_logs_def Let_def)

lemma usedExtensions_silence_logs [simp]: "usedExtensions (silence_logs s) = usedExtensions s"
  by (simp add: silence_logs_def Let_def)

lemma activate_trace:
  "trace (activate env exts s) = trace s @ new_events s (activate env exts s)"
proof -
  let ?q = "chain_heads (options s) 0 exts @ resolved_at_once (options s) 0 exts @ [Init_thenable]"
  let ?st1 = "s\<lparr>init_waiting := False, init_result := None,
           trace := trace s @ skip_events (options s) 0 exts,
           all_remaining := length exts, all_result := (if exts = [] then Some Fulfilled else None),
           availableExtensions := map (with_merged (options s)) exts\<rparr>"
  from trace_drain_extends [of env ?q ?st1] obtain es
    where es: "trace (drain env ?q ?st1) = trace ?st1 @ es"
    by blast
  have "trace (activate env exts s) = trace s @ (skip_events (options s) 0 exts @ es)"
    using es by (simp add: activate_eq)
  then show ?thesis by (simp add: new_events_def)
qed

section \<open>Order of activation\<close>

lemma exec_Then_main_trace:
  assumes "exec env (Then_main i e) st = (st1, js)"
  shows "trace st1 = trace st @ invoked_by env (Then_main i e)
         \<and> (\<forall>j'\<in>set js. invoked_by env j' = [])"
proof (cases "entry_of env e")
  case (Call acts)
  obtain t e1 st2 ks where rb: "run_body i acts e (log [Invoked i] st) = (t, e1, st2, ks)"
    by (cases "run_body i acts e (log [Invoked i] st)") auto
  from run_body_trace [OF rb] have tr: "trace st2 = trace st @ [Invoked i]" by simp
  from run_body_jobs [OF rb] have ks: "\<forall>j'\<in>set ks. invoked_by env j' = []" by auto
  from assms Call rb tr ks show ?thesis
    by (auto simp: has_entry_def split: option.splits)
next
  case (Load_failed x)
  with assms show ?thesis by (auto simp: has_entry_def)
next
  case Invalid
  with assms show ?thesis by (auto simp: has_entry_def)
qed

text \<open>
  The jobs of \<open>f\<close> that \<^verbatim>\<open>useMany\<close> queued run first, one after the other: each adds
  the call of its entry point to the trace and nothing else, and what it queues goes
  behind the jobs that were already there.
\<close>

lemma first_round:
  assumes "\<forall>j\<in>set q1. \<exists>i e. j = Then_main i e"
  shows "\<exists>st1 js. drain env (q1 @ q2) st = drain env (q2 @ js) st1
           \<and> trace st1 = trace st @ concat (map (invoked_by env) q1)
           \<and> (\<forall>j'\<in>set js. invoked_by env j' = [])"
  using assms
proof (induction q1 arbitrary: q2 st)
  case Nil
  have "drain env ([] @ q2) st = drain env (q2 @ []) st
         \<and> trace st = trace st @ concat (map (invoked_by env) [])
         \<and> (\<forall>j'\<in>set ([] :: job list). invoked_by env j' = [])"
    by simp
  then show ?case by blast
next
  case (Cons j q1)
  from Cons.prems obtain i e where j: "j = Then_main i e" by auto
  from Cons.prems have rest: "\<forall>j\<in>set q1. \<exists>i e. j = Then_main i e" by simp
  obtain st' js' where ex: "exec env (Then_main i e) st = (st', js')"
    by (cases "exec env (Then_main i e) st")
  from exec_Then_main_trace [OF ex]
  have t': "trace st' = trace st @ invoked_by env (Then_main i e)"
    and n': "\<forall>j'\<in>set js'. invoked_by env j' = []"
    by simp_all
  from Cons.IH [OF rest, of "q2 @ js'" st'] obtain st1 js
    where d: "drain env (q1 @ q2 @ js') st' = drain env ((q2 @ js') @ js) st1"
      and t: "trace st1 = trace st' @ concat (map (invoked_by env) q1)"
      and n: "\<forall>j'\<in>set js. invoked_by env j' = []"
    by blast
  have d1: "drain env ((j # q1) @ q2) st = drain env (q2 @ (js' @ js)) st1"
    using ex d by (simp add: j)
  have t1: "trace st1 = trace st @ concat (map (invoked_by env) (j # q1))"
    using t t' by (simp add: j)
  have n1: "\<forall>j'\<in>set (js' @ js). invoked_by env j' = []"
    using n n' by auto
  from d1 t1 n1 show ?case by blast
qed

lemma chain_heads_Then_main:
  "\<forall>j\<in>set (chain_heads opts k exts). \<exists>i e. j = Then_main i e"
  by (induction exts arbitrary: k) auto

text \<open>
  The events of \<^verbatim>\<open>useMany\<close> and of the jobs after it: the lines about the disabled
  descriptors, then the calls of all entry points, then everything else.
\<close>

lemma activate_events:
  "\<exists>rest. new_events st (activate env exts st)
             = skip_events (options st) 0 exts
               @ map Invoked (filter (\<lambda>i. starts env (options st) (exts ! i)) [0..<length exts])
               @ rest
          \<and> (\<forall>ev\<in>set rest. \<not> is_Invoked ev)"
proof -
  let ?q1 = "chain_heads (options st) 0 exts"
  let ?q2 = "resolved_at_once (options st) 0 exts @ [Init_thenable]"
  let ?st0 = "st\<lparr>init_waiting := False, init_result := None,
           trace := trace st @ skip_events (options st) 0 exts,
           all_remaining := length exts, all_result := (if exts = [] then Some Fulfilled else None),
           availableExtensions := map (with_merged (options st)) exts\<rparr>"
  let ?invs = "map Invoked (filter (\<lambda>i. starts env (options st) (exts ! i)) [0..<length exts])"
  have a: "activate env exts st = drain env (?q1 @ ?q2) ?st0"
    by (simp add: activate_eq)
  from first_round [OF chain_heads_Then_main, of env "options st" 0 exts ?q2 ?st0] obtain st1 js
    where d: "drain env (?q1 @ ?q2) ?st0 = drain env (?q2 @ js) st1"
      and t: "trace st1 = trace ?st0 @ concat (map (invoked_by env) ?q1)"
      and n: "\<forall>j'\<in>set js. invoked_by env j' = []"
    by blast
  have ch: "concat (map (invoked_by env) ?q1) = ?invs"
    using chain_heads_invoked [of env "options st" 0 exts] by simp
  have t1: "trace st1 = trace st @ skip_events (options st) 0 exts @ ?invs"
    using t ch by simp
  from drain_invoked [of env "?q2 @ js" st1] obtain es
    where es: "trace (drain env (?q2 @ js) st1) = trace st1 @ es"
      and f: "filter is_Invoked es = concat (map (invoked_by env) (?q2 @ js))"
    by blast
  from n have "concat (map (invoked_by env) js) = []" by simp
  with f have "filter is_Invoked es = []" by simp
  then have no: "\<forall>ev\<in>set es. \<not> is_Invoked ev" by (simp add: filter_empty_conv)
  have "trace (activate env exts st) = trace st @ (skip_events (options st) 0 exts @ ?invs @ es)"
    unfolding a d es t1 by simp
  then have "new_events st (activate env exts st) = skip_events (options st) 0 exts @ ?invs @ es"
    by (rule new_events_append)
  with no show ?thesis by blast
qed

lemma skip_events_Settled:
  "Settled i r \<in> set (skip_events opts k exts) \<Longrightarrow>
     k \<le> i \<and> i < k + length exts \<and> disabled opts (exts ! (i - k))"
proof (induction exts arbitrary: k)
  case Nil
  then show ?case by simp
next
  case (Cons e es)
  show ?case
  proof (cases "Settled i r \<in> set (skip_events opts (Suc k) es)")
    case True
    from Cons.IH [OF True] have "Suc k \<le> i" "i < Suc k + length es" "disabled opts (es ! (i - Suc k))"
      by simp_all
    moreover from \<open>Suc k \<le> i\<close> have "i - k = Suc (i - Suc k)" by simp
    ultimately show ?thesis by simp
  next
    case False
    with Cons.prems have "i = k" "disabled opts e" by (auto split: if_splits)
    then show ?thesis by simp
  qed
qed

lemma skip_events_not_Async: "Async_settled i ok \<notin> set (skip_events opts k exts)"
  by (induction exts arbitrary: k) auto

lemma before_last_of_prefix:
  assumes "a @ r = pre @ x # post" and "x \<notin> set r"
  shows "set pre \<subseteq> set a"
  using assms by (auto simp: append_eq_append_conv2 append_eq_Cons_conv)

text \<open>What comes before the call of an entry point.\<close>

lemma before_Invoked:
  assumes "new_events st (activate env exts st) = pre @ Invoked j # post"
  shows "set pre \<subseteq> set (skip_events (options st) 0 exts) \<union> range Invoked"
proof -
  from activate_events [of st env exts] obtain rest
    where eq: "new_events st (activate env exts st)
             = skip_events (options st) 0 exts
               @ map Invoked (filter (\<lambda>i. starts env (options st) (exts ! i)) [0..<length exts])
               @ rest"
      and no: "\<forall>ev\<in>set rest. \<not> is_Invoked ev"
    by blast
  from no have "Invoked j \<notin> set rest" by auto
  moreover from eq assms
  have "(skip_events (options st) 0 exts
               @ map Invoked (filter (\<lambda>i. starts env (options st) (exts ! i)) [0..<length exts]))
               @ rest = pre @ Invoked j # post"
    by simp
  ultimately have "set pre \<subseteq> set (skip_events (options st) 0 exts
               @ map Invoked (filter (\<lambda>i. starts env (options st) (exts ! i)) [0..<length exts]))"
    by (rule before_last_of_prefix [rotated])
  then show ?thesis by auto
qed

lemma sequential_from_needs_settled:
  "sequential_from S (pre @ Invoked (Suc i) # post) \<Longrightarrow> i \<in> set S \<or> (\<exists>r. Settled i r \<in> set pre)"
proof (induction pre arbitrary: S)
  case Nil
  then show ?case by simp
next
  case (Cons ev pre)
  show ?case
  proof (cases ev)
    case (Settled k r)
    with Cons.prems have "sequential_from (k # S) (pre @ Invoked (Suc i) # post)" by simp
    from Cons.IH [OF this] Settled show ?thesis by auto
  next
    case (Invoked k)
    with Cons.prems have "sequential_from S (pre @ Invoked (Suc i) # post)" by simp
    from Cons.IH [OF this] show ?thesis by auto
  qed (use Cons in \<open>auto\<close>)
qed

lemma not_sequential:
  assumes len: "Suc i < length exts"
    and nd: "\<not> disabled (options st) (exts ! i)"
    and s: "starts env (options st) (exts ! Suc i)"
  shows "\<not> strictly_sequential (new_events st (activate env exts st))"
proof
  assume seq: "strictly_sequential (new_events st (activate env exts st))"
  from len s have "Suc i \<in> set (filter (\<lambda>i. starts env (options st) (exts ! i)) [0..<length exts])"
    by simp
  then have "Invoked (Suc i) \<in> set (filter is_Invoked (new_events st (activate env exts st)))"
    by (simp only: activate_invoked set_map) (rule imageI)
  then have "Invoked (Suc i) \<in> set (new_events st (activate env exts st))" by simp
  then obtain pre post where sp: "new_events st (activate env exts st) = pre @ Invoked (Suc i) # post"
    by (auto dest: split_list)
  from seq have "sequential_from [] (pre @ Invoked (Suc i) # post)"
    by (simp add: strictly_sequential_def sp)
  from sequential_from_needs_settled [OF this] obtain r where "Settled i r \<in> set pre" by auto
  with before_Invoked [OF sp] have "Settled i r \<in> set (skip_events (options st) 0 exts)" by auto
  from skip_events_Settled [OF this] nd show False by simp
qed


text \<open>
  Claim C1, as stated: activation is strictly sequential, the entry point of descriptor
  \<open>N + 1\<close> is not invoked until the activation of descriptor \<open>N\<close> has settled,
  including its asynchronous work.  \<^verbatim>\<open>useMany\<close> is
  \<^verbatim>\<open>Promise.all(extensions.map((e) => this.useOne(e)))\<close>: all chains are started at once,
  and \<open>f\<close> does not wait for what the entry point returns.  With two registered
  functions, the second of which is invoked while the asynchronous work of the first
  is still running and before the promise of its activation settles:
\<close>

theorem activation_not_sequential_counterexample:
  "trace (Kites_init example_env
       (use (Inl fn_logging) (use (Inl fn_slow) (new_kites example_env []))))
     = [Log_initializing, Log_autodiscover_off, Invoked 0, Invoked 1,
        Emit_registered 0, Emit_registered 1, Settled 0 Fulfilled, Settled 1 Fulfilled,
        Log_initialized, Emit_initialized False, Async_settled 0 True]
   \<and> \<not> strictly_sequential (trace (Kites_init example_env
       (use (Inl fn_logging) (use (Inl fn_slow) (new_kites example_env [])))))"
  by code_simp

text \<open>
  Claim C1, amended: activation is ordered, not sequential.  For every list handed to
  \<^verbatim>\<open>useMany\<close>, the entry points that are invoked are those of the descriptors that are
  not disabled and have an entry point, each exactly once and in the order of the
  list.  They are invoked in one go: the events of the call are the lines about the
  disabled descriptors, then the calls of all entry points, then everything else.  So
  when an entry point is called, the only activations that have settled are those of
  disabled descriptors, which settle inside \<^verbatim>\<open>useOne\<close>, and no asynchronous work has
  finished: the orchestrator waits neither for the activation of the descriptors
  before it nor for the work they started.  Whenever a descriptor that is not disabled
  is followed by one whose entry point is invoked, the run is not strictly sequential.
\<close>

theorem activation_ordered_not_sequential:
  "filter is_Invoked (new_events st (activate env exts st))
     = map Invoked (filter (\<lambda>i. starts env (options st) (exts ! i)) [0..<length exts])
   \<and> (\<exists>rest. new_events st (activate env exts st)
                = skip_events (options st) 0 exts
                  @ map Invoked (filter (\<lambda>i. starts env (options st) (exts ! i)) [0..<length exts])
                  @ rest
              \<and> (\<forall>ev\<in>set rest. \<not> is_Invoked ev))
   \<and> (\<forall>pre j post. new_events st (activate env exts st) = pre @ Invoked j # post \<longrightarrow>
          (\<forall>i r. Settled i r \<in> set pre \<longrightarrow> i < length exts \<and> disabled (options st) (exts ! i))
          \<and> (\<forall>i ok. Async_settled i ok \<notin> set pre))
   \<and> (\<forall>i. Suc i < length exts \<and> \<not> disabled (options st) (exts ! i)
            \<and> starts env (options st) (exts ! Suc i)
          \<longrightarrow> \<not> strictly_sequential (new_events st (activate env exts st)))"
proof -
  have a: "filter is_Invoked (new_events st (activate env exts st))
     = map Invoked (filter (\<lambda>i. starts env (options st) (exts ! i)) [0..<length exts])"
    by (rule activate_invoked)
  have b: "\<exists>rest. new_events st (activate env exts st)
                = skip_events (options st) 0 exts
                  @ map Invoked (filter (\<lambda>i. starts env (options st) (exts ! i)) [0..<length exts])
                  @ rest
              \<and> (\<forall>ev\<in>set rest. \<not> is_Invoked ev)"
    by (rule activate_events)
  have c: "\<forall>pre j post. new_events st (activate env exts st) = pre @ Invoked j # post \<longrightarrow>
          (\<forall>i r. Settled i r \<in> set pre \<longrightarrow> i < length exts \<and> disabled (options st) (exts ! i))
          \<and> (\<forall>i ok. Async_settled i ok \<notin> set pre)"
  proof (intro allI impI conjI)
    fix pre j post i r
    assume sp: "new_events st (activate env exts st) = pre @ Invoked j # post"
      and m: "Settled i r \<in> set pre"
    from before_Invoked [OF sp] m have "Settled i r \<in> set (skip_events (options st) 0 exts)" by auto
    from skip_events_Settled [OF this] show "i < length exts" by simp
    from skip_events_Settled [OF \<open>Settled i r \<in> set (skip_events (options st) 0 exts)\<close>]
    show "disabled (options st) (exts ! i)" by simp
  next
    fix pre j post i ok
    assume sp: "new_events st (activate env exts st) = pre @ Invoked j # post"
    show "Async_settled i ok \<notin> set pre"
    proof
      assume "Async_settled i ok \<in> set pre"
      with before_Invoked [OF sp] have "Async_settled i ok \<in> set (skip_events (options st) 0 exts)"
        by auto
      with skip_events_not_Async show False by blast
    qed
  qed
  have d: "\<forall>i. Suc i < length exts \<and> \<not> disabled (options st) (exts ! i)
            \<and> starts env (options st) (exts ! Suc i)
          \<longrightarrow> \<not> strictly_sequential (new_events st (activate env exts st))"
    by (intro allI impI, elim conjE) (rule not_sequential)
  show ?thesis
    by (intro conjI) (rule a, rule b, rule c, rule d)
qed

theorem activation_ordered_not_sequential_witness:
  "(new_events (new_kites example_env [(''logging'', Obj [(''enabled'', Bool False)])])
        (activate example_env
          (usedExtensions (use (Inl fn_router) (use (Inl fn_slow) (use (Inl fn_logging)
          (new_kites example_env [(''logging'', Obj [(''enabled'', Bool False)])])))))
          (new_kites example_env [(''logging'', Obj [(''enabled'', Bool False)])])))
     = [Log_skipping 0, Settled 0 Fulfilled, Invoked 1, Invoked 2, Emit_registered 1, Emit_registered 2,
        Settled 1 Fulfilled, Settled 2 Fulfilled, Fired ''routes'', Log_initialized,
        Emit_initialized False, Async_settled 1 True]
   \<and> Suc 1 < length (usedExtensions (use (Inl fn_router) (use (Inl fn_slow) (use (Inl fn_logging)
          (new_kites example_env [(''logging'', Obj [(''enabled'', Bool False)])])))))
   \<and> \<not> disabled (options (new_kites example_env [(''logging'', Obj [(''enabled'', Bool False)])])) ((usedExtensions (use (Inl fn_router) (use (Inl fn_slow) (use (Inl fn_logging)
          (new_kites example_env [(''logging'', Obj [(''enabled'', Bool False)])]))))) ! 1)
   \<and> starts example_env (options (new_kites example_env [(''logging'', Obj [(''enabled'', Bool False)])])) ((usedExtensions (use (Inl fn_router) (use (Inl fn_slow) (use (Inl fn_logging)
          (new_kites example_env [(''logging'', Obj [(''enabled'', Bool False)])]))))) ! Suc 1)
   \<and> \<not> strictly_sequential (new_events (new_kites example_env [(''logging'', Obj [(''enabled'', Bool False)])])
        (activate example_env
          (usedExtensions (use (Inl fn_router) (use (Inl fn_slow) (use (Inl fn_logging)
          (new_kites example_env [(''logging'', Obj [(''enabled'', Bool False)])])))))
          (new_kites example_env [(''logging'', Obj [(''enabled'', Bool False)])])))
   \<and> Settled 0 Fulfilled \<in> set [Log_skipping 0, Settled 0 Fulfilled, Invoked 1]
   \<and> 0 < length (usedExtensions (use (Inl fn_router) (use (Inl fn_slow) (use (Inl fn_logging)
          (new_kites example_env [(''logging'', Obj [(''enabled'', Bool False)])])))))
   \<and> disabled (options (new_kites example_env [(''logging'', Obj [(''enabled'', Bool False)])])) ((usedExtensions (use (Inl fn_router) (use (Inl fn_slow) (use (Inl fn_logging)
          (new_kites example_env [(''logging'', Obj [(''enabled'', Bool False)])]))))) ! 0)"
proof -
  let ?st = "(new_kites example_env [(''logging'', Obj [(''enabled'', Bool False)])])"
  let ?exts = "(usedExtensions (use (Inl fn_router) (use (Inl fn_slow) (use (Inl fn_logging)
          (new_kites example_env [(''logging'', Obj [(''enabled'', Bool False)])])))))"
  have tr: "new_events ?st (activate example_env ?exts ?st)
     = [Log_skipping 0, Settled 0 Fulfilled, Invoked 1, Invoked 2, Emit_registered 1, Emit_registered 2,
        Settled 1 Fulfilled, Settled 2 Fulfilled, Fired ''routes'', Log_initialized,
        Emit_initialized False, Async_settled 1 True]"
    by code_simp
  have h1: "Suc 1 < length ?exts" by code_simp
  have h2: "\<not> disabled (options ?st) (?exts ! 1)" by code_simp
  have h3: "starts example_env (options ?st) (?exts ! Suc 1)" by code_simp
  have sp: "new_events ?st (activate example_env ?exts ?st)
     = [Log_skipping 0, Settled 0 Fulfilled, Invoked 1] @ Invoked 2
         # [Emit_registered 1, Emit_registered 2,
        Settled 1 Fulfilled, Settled 2 Fulfilled, Fired ''routes'', Log_initialized,
        Emit_initialized False, Async_settled 1 True]"
    unfolding tr by simp
  note t = activation_ordered_not_sequential [of ?st example_env ?exts]
  from t have d: "\<forall>i. Suc i < length ?exts \<and> \<not> disabled (options ?st) (?exts ! i)
            \<and> starts example_env (options ?st) (?exts ! Suc i)
          \<longrightarrow> \<not> strictly_sequential (new_events ?st (activate example_env ?exts ?st))"
    by (elim conjE)
  have hyps: "Suc 1 < length ?exts \<and> \<not> disabled (options ?st) (?exts ! 1)
            \<and> starts example_env (options ?st) (?exts ! Suc 1)"
    by (intro conjI) (rule h1, rule h2, rule h3)
  from spec [OF d, of 1] hyps
  have ns: "\<not> strictly_sequential (new_events ?st (activate example_env ?exts ?st))"
    by (rule mp)
  from t have c: "\<forall>pre j post. new_events ?st (activate example_env ?exts ?st) = pre @ Invoked j # post \<longrightarrow>
          (\<forall>i r. Settled i r \<in> set pre \<longrightarrow> i < length ?exts \<and> disabled (options ?st) (?exts ! i))
          \<and> (\<forall>i ok. Async_settled i ok \<notin> set pre)"
    by (elim conjE)
  from spec [OF spec [OF spec [OF c]]] sp
  have "(\<forall>i r. Settled i r \<in> set [Log_skipping 0, Settled 0 Fulfilled, Invoked 1]
            \<longrightarrow> i < length ?exts \<and> disabled (options ?st) (?exts ! i))
          \<and> (\<forall>i ok. Async_settled i ok \<notin> set [Log_skipping 0, Settled 0 Fulfilled, Invoked 1])"
    by (rule mp)
  then have bf: "\<forall>i r. Settled i r \<in> set [Log_skipping 0, Settled 0 Fulfilled, Invoked 1]
            \<longrightarrow> i < length ?exts \<and> disabled (options ?st) (?exts ! i)"
    by (rule conjunct1)
  have mem: "Settled 0 Fulfilled \<in> set [Log_skipping 0, Settled 0 Fulfilled, Invoked 1]" by simp
  from spec [OF spec [OF bf]] mem
  have dis: "0 < length ?exts \<and> disabled (options ?st) (?exts ! 0)"
    by (rule mp)
  from dis have d1: "0 < length ?exts" by (rule conjunct1)
  from dis have d2: "disabled (options ?st) (?exts ! 0)" by (rule conjunct2)
  show ?thesis
    by (intro conjI) (rule tr, rule h1, rule h2, rule h3, rule ns, rule mem, rule d1, rule d2)
qed

section \<open>Disabled extensions\<close>

lemma exec_index:
  assumes "exec env j st = (st1, js)"
  shows "(\<exists>es. trace st1 = trace st @ es
            \<and> (\<forall>ev\<in>set es. event_index ev = None \<or> event_index ev = job_index j))
         \<and> (\<forall>j'\<in>set js. job_index j' = None \<or> job_index j' = job_index j)"
proof (cases j)
  case (Then_main i e)
  show ?thesis
  proof (cases "entry_of env e")
    case (Call acts)
    obtain t e1 st2 ks where rb: "run_body i acts e (log [Invoked i] st) = (t, e1, st2, ks)"
      by (cases "run_body i acts e (log [Invoked i] st)") auto
    from run_body_trace [OF rb] have tr: "trace st2 = trace st @ [Invoked i]" by simp
    from run_body_jobs [OF rb] have ks: "\<forall>j'\<in>set ks. job_index j' = Some i" by auto
    from assms Then_main Call rb tr ks show ?thesis
      by (auto split: option.splits)
  next
    case (Load_failed x)
    with assms Then_main show ?thesis by auto
  next
    case Invalid
    with assms Then_main show ?thesis by auto
  qed
next
  case (Settle_first i e r)
  with assms show ?thesis by (cases r) auto
next
  case (Kites_resume r)
  with assms show ?thesis
    by (cases r) (auto simp: finish_init_def fire_def emit_initialized_def Let_def)
next
  case (All_resolveElement i)
  with assms show ?thesis
    by (auto simp: Let_def split: if_splits dest: trace_settle_all settle_all_jobs)
next
  case (All_reject err)
  with assms show ?thesis
    by (auto dest: trace_settle_all settle_all_jobs)
qed (use assms in \<open>auto split: if_splits option.splits nat.splits\<close>)

lemma drain_index:
  assumes "\<forall>j\<in>set q. job_index j \<noteq> Some i"
  shows "\<exists>es. trace (drain env q st) = trace st @ es \<and> (\<forall>ev\<in>set es. event_index ev \<noteq> Some i)"
proof -
  let ?I = "\<lambda>q' st'. (\<forall>j\<in>set q'. job_index j \<noteq> Some i)
               \<and> (\<exists>es. trace st' = trace st @ es \<and> (\<forall>ev\<in>set es. event_index ev \<noteq> Some i))"
  have "?I [] (drain env q st)"
  proof (rule drain_invariant [where I = ?I])
    show "?I q st" using assms by simp
  next
    fix j q' st' st1 js
    assume inv: "?I (j # q') st'" and ex: "exec env j st' = (st1, js)"
    from inv have j: "job_index j \<noteq> Some i" and q': "\<forall>j\<in>set q'. job_index j \<noteq> Some i" by auto
    from inv obtain es where es: "trace st' = trace st @ es"
      and es_i: "\<forall>ev\<in>set es. event_index ev \<noteq> Some i" by blast
    from exec_index [OF ex] obtain ds where ds: "trace st1 = trace st' @ ds"
      and ds_i: "\<forall>ev\<in>set ds. event_index ev = None \<or> event_index ev = job_index j"
      and js: "\<forall>j'\<in>set js. job_index j' = None \<or> job_index j' = job_index j"
      by blast
    have "\<forall>j\<in>set (q' @ js). job_index j \<noteq> Some i"
      using q' js j by auto
    moreover have "trace st1 = trace st @ (es @ ds)" using es ds by simp
    moreover have "\<forall>ev\<in>set (es @ ds). event_index ev \<noteq> Some i"
      using es_i ds_i j by auto
    ultimately show "?I (q' @ js) st1" by blast
  qed
  then show ?thesis by blast
qed

lemma chain_heads_index:
  "j \<in> set (chain_heads opts k exts) \<Longrightarrow>
     \<exists>n<length exts. j = Then_main (k + n) (with_merged opts (exts ! n)) \<and> \<not> disabled opts (exts ! n)"
proof (induction exts arbitrary: k)
  case Nil
  then show ?case by simp
next
  case (Cons e es)
  show ?case
  proof (cases "j \<in> set (chain_heads opts (Suc k) es)")
    case True
    from Cons.IH [OF True] obtain n where "n < length es"
      "j = Then_main (Suc k + n) (with_merged opts (es ! n))" "\<not> disabled opts (es ! n)"
      by blast
    then have "Suc n < length (e # es) \<and> j = Then_main (k + Suc n) (with_merged opts ((e # es) ! Suc n))
               \<and> \<not> disabled opts ((e # es) ! Suc n)"
      by simp
    then show ?thesis by blast
  next
    case False
    with Cons.prems have "j = Then_main k (with_merged opts e)" "\<not> disabled opts e"
      by (auto split: if_splits)
    then have "0 < length (e # es) \<and> j = Then_main (k + 0) (with_merged opts ((e # es) ! 0))
               \<and> \<not> disabled opts ((e # es) ! 0)"
      by simp
    then show ?thesis by blast
  qed
qed

lemma resolved_at_once_index: "j \<in> set (resolved_at_once opts k exts) \<Longrightarrow> job_index j = None"
  by (induction exts arbitrary: k) (auto split: if_splits)

lemma skip_events_index:
  "filter (\<lambda>ev. event_index ev = Some i) (skip_events opts k exts)
     = (if k \<le> i \<and> i < k + length exts \<and> disabled opts (exts ! (i - k))
        then [Log_skipping i, Settled i Fulfilled] else [])"
proof (induction exts arbitrary: k)
  case Nil
  then show ?case by simp
next
  case (Cons e es)
  show ?case
  proof (cases "i = k")
    case True
    with Cons.IH [of "Suc k"] show ?thesis by simp
  next
    case False
    have "(e # es) ! (i - k) = es ! (i - Suc k)" if "k \<le> i"
    proof -
      from that False have "i - k = Suc (i - Suc k)" by simp
      then show ?thesis by simp
    qed
    with False Cons.IH [of "Suc k"] show ?thesis by auto
  qed
qed

text \<open>
  Claim C3, as stated: an extension whose merged options set \<^verbatim>\<open>enabled === false\<close> is
  skipped without error, and an \<^verbatim>\<open>extension:registered\<close> notification is still
  emitted for the skip.  \<^verbatim>\<open>useOne\<close> returns \<^verbatim>\<open>Promise.resolve()\<close> right after the
  debug line, and the second callback emits only under
  \<^verbatim>\<open>if (options.enabled !== false)\<close>.  With the runtime configuration
  \<^verbatim>\<open>{logging: {enabled: false}}\<close>:
\<close>

theorem disabled_extension_not_registered_counterexample:
  "trace (Kites_init example_env
       (use (Inl fn_router) (use (Inl fn_logging)
          (new_kites example_env [(''logging'', Obj [(''enabled'', Bool False)])]))))
     = [Log_initializing, Log_autodiscover_off, Log_skipping 0, Settled 0 Fulfilled,
        Invoked 1, Emit_registered 1, Settled 1 Fulfilled,
        Fired ''routes'', Log_initialized, Emit_initialized False]
   \<and> Emit_registered 0 \<notin> set (trace (Kites_init example_env
       (use (Inl fn_router) (use (Inl fn_logging)
          (new_kites example_env [(''logging'', Obj [(''enabled'', Bool False)])])))))"
  by code_simp

text \<open>
  Claim C3, amended: for every extension whose merged options set
  \<^verbatim>\<open>enabled === false\<close>, activation is skipped without error: the only events of the
  run that concern it are the debug line of the skip and the fulfilment of the promise
  \<^verbatim>\<open>useOne\<close> returned; its entry point is never invoked and no
  \<^verbatim>\<open>extension:registered\<close> notification is emitted for it.
\<close>

theorem disabled_extension_is_skipped_silently:
  assumes "i < length exts" and "disabled (options st) (exts ! i)"
  shows "filter (\<lambda>ev. event_index ev = Some i) (new_events st (activate env exts st))
           = [Log_skipping i, Settled i Fulfilled]
         \<and> Invoked i \<notin> set (new_events st (activate env exts st))
         \<and> Emit_registered i \<notin> set (new_events st (activate env exts st))
         \<and> (\<forall>err. Settled i (Rejected err) \<notin> set (new_events st (activate env exts st)))"
proof -
  let ?q = "chain_heads (options st) 0 exts @ resolved_at_once (options st) 0 exts @ [Init_thenable]"
  let ?st1 = "st\<lparr>init_waiting := False, init_result := None,
           trace := trace st @ skip_events (options st) 0 exts,
           all_remaining := length exts, all_result := (if exts = [] then Some Fulfilled else None),
           availableExtensions := map (with_merged (options st)) exts\<rparr>"
  have "\<forall>j\<in>set ?q. job_index j \<noteq> Some i"
  proof
    fix j assume "j \<in> set ?q"
    then consider "j \<in> set (chain_heads (options st) 0 exts)"
      | "j \<in> set (resolved_at_once (options st) 0 exts)" | "j = Init_thenable"
      by auto
    then show "job_index j \<noteq> Some i"
    proof cases
      case 1
      from chain_heads_index [OF 1] assms(2) show ?thesis by auto
    next
      case 2
      from resolved_at_once_index [OF 2] show ?thesis by simp
    next
      case 3
      then show ?thesis by simp
    qed
  qed
  from drain_index [OF this, of env ?st1] obtain es
    where es: "trace (drain env ?q ?st1) = trace ?st1 @ es"
      and none: "\<forall>ev\<in>set es. event_index ev \<noteq> Some i"
    by blast
  have "trace (activate env exts st) = trace st @ (skip_events (options st) 0 exts @ es)"
    using es by (simp add: activate_eq)
  then have new: "new_events st (activate env exts st) = skip_events (options st) 0 exts @ es"
    by (rule new_events_append)
  from none have "filter (\<lambda>ev. event_index ev = Some i) es = []"
    by (simp add: filter_empty_conv)
  with new assms have f: "filter (\<lambda>ev. event_index ev = Some i) (new_events st (activate env exts st))
           = [Log_skipping i, Settled i Fulfilled]"
    by (simp add: skip_events_index)
  have mem: "\<And>ev. event_index ev = Some i \<Longrightarrow> ev \<in> set (new_events st (activate env exts st))
               \<Longrightarrow> ev \<in> set [Log_skipping i, Settled i Fulfilled]"
  proof -
    fix ev assume "event_index ev = Some i" "ev \<in> set (new_events st (activate env exts st))"
    then have "ev \<in> set (filter (\<lambda>ev. event_index ev = Some i) (new_events st (activate env exts st)))"
      by simp
    with f show "ev \<in> set [Log_skipping i, Settled i Fulfilled]" by simp
  qed
  have "Invoked i \<notin> set (new_events st (activate env exts st))"
    using mem [of "Invoked i"] by auto
  moreover have "Emit_registered i \<notin> set (new_events st (activate env exts st))"
    using mem [of "Emit_registered i"] by auto
  moreover have "\<forall>err. Settled i (Rejected err) \<notin> set (new_events st (activate env exts st))"
  proof
    fix err show "Settled i (Rejected err) \<notin> set (new_events st (activate env exts st))"
      using mem [of "Settled i (Rejected err)"] by auto
  qed
  ultimately show ?thesis using f by blast
qed

theorem disabled_extension_is_skipped_silently_witness:
  "disabled (options (new_kites example_env [(''logging'', Obj [(''enabled'', Bool False)])]))
       \<lparr>name = Some ''logging'', dependencies = [], directory = None,
        main = Main_function fn_logging, init = None, ext_options = None\<rparr>
   \<and> filter (\<lambda>ev. event_index ev = Some 0)
       (new_events (new_kites example_env [(''logging'', Obj [(''enabled'', Bool False)])])
          (activate example_env
             [\<lparr>name = Some ''logging'', dependencies = [], directory = None,
               main = Main_function fn_logging, init = None, ext_options = None\<rparr>]
             (new_kites example_env [(''logging'', Obj [(''enabled'', Bool False)])])))
       = [Log_skipping 0, Settled 0 Fulfilled]"
proof -
  let ?e = "\<lparr>name = Some ''logging'', dependencies = [], directory = None,
        main = Main_function fn_logging, init = None, ext_options = None\<rparr>"
  let ?st = "new_kites example_env [(''logging'', Obj [(''enabled'', Bool False)])]"
  have h1: "0 < length [?e]" by simp
  have h2: "disabled (options ?st) ([?e] ! 0)" by code_simp
  have h2': "disabled (options ?st) ?e" by code_simp
  from disabled_extension_is_skipped_silently [OF h1 h2, of example_env] h2'
  show ?thesis by simp
qed


section \<open>The allow-list\<close>

lemma filter_allowed_Arr:
  "filter_allowed (Arr allow) av = Inr (filter (\<lambda>e. name_val e \<in> set allow) av)"
  by (induction av) (auto simp: allowed_def)

lemma mset_insert_by: "mset (insert_by cmp x ys) = add_mset x (mset ys)"
  by (induction ys) auto

lemma mset_sort_by_cmp: "mset (sort_by_cmp cmp xs) = mset xs"
  by (induction xs) (auto simp: sort_by_cmp_def mset_insert_by)

lemma get_prop_put_other: "k \<noteq> k' \<Longrightarrow> get_prop (put_prop k v obj) k' = get_prop obj k'"
  by (simp add: get_prop_def map_of_put_prop)

lemma normalise_discover_extensions:
  "get_prop (normalise_discover opts) ''extensions'' = get_prop opts ''extensions''"
  by (cases "get_prop opts ''discover''")
     (simp_all add: normalise_discover_def Let_def get_prop_put_other)

lemma collect_Arr:
  assumes "get_prop (options s) ''extensions'' = Arr allow"
  shows "collect env s =
           (s\<lparr>availableExtensions := sort_by_cmp (sorter env)
                  (filter (\<lambda>e. name_val e \<in> set allow) (availableExtensions s @ usedExtensions s))\<rparr>,
            Inr (sort_by_cmp (sorter env)
                  (filter (\<lambda>e. name_val e \<in> set allow) (availableExtensions s @ usedExtensions s))))"
  using assms by (simp add: collect_def Let_def filter_allowed_Arr)

lemma init_allow_list:
  assumes a: "get_prop (options st) ''extensions'' = Arr allow"
    and x: "get_prop (normalise_discover (options st)) ''discover'' = Arr xs"
    and s1: "shift xs = (autodiscover, xs1)"
    and s2: "shift xs1 = (depth, directories)"
    and f: "found = (if truthy autodiscover
                     then discover env (discover_args (normalise_discover (options st)) depth directories)
                     else [])"
  shows "\<exists>st1. ExtensionsManager_init env st =
           (st1, Inr (sort_by_cmp (sorter env) (filter (\<lambda>e. name_val e \<in> set allow) (found @ usedExtensions st))))
         \<and> trace st1 = trace st @ [if truthy autodiscover then Log_discovered (length found)
                                     else Log_autodiscover_off]
         \<and> options st1 = put_prop ''discover'' (Arr (if truthy autodiscover then directories else xs1))
                            (normalise_discover (options st))"
proof -
  let ?st0 = "st\<lparr>availableExtensions := [], options := normalise_discover (options st)\<rparr>"
  let ?L = "sort_by_cmp (sorter env) (filter (\<lambda>e. name_val e \<in> set allow) (found @ usedExtensions st))"
  have a0: "get_prop (options ?st0) ''extensions'' = Arr allow"
    using a by (simp add: normalise_discover_extensions)
  have xs: "get_prop (options ?st0) ''discover'' = Arr xs"
    using x by simp
  show ?thesis
  proof (cases "truthy autodiscover")
    case True
    have fd: "found = discover env (discover_args (normalise_discover (options st)) depth directories)"
      using f True by simp
    let ?s = "log [Log_discovered (length found)]
                (?st0\<lparr>options := put_prop ''discover'' (Arr directories) (options ?st0),
                      availableExtensions := found\<rparr>)"
    have e: "get_prop (options ?s) ''extensions'' = Arr allow"
      using a0 by (simp add: get_prop_put_other log_def)
    have i: "ExtensionsManager_init env st = collect env ?s"
      using xs s1 s2 True by (simp add: ExtensionsManager_init_def Let_def fd)
    have av: "availableExtensions ?s @ usedExtensions ?s = found @ usedExtensions st"
      by (simp add: log_def)
    have c: "ExtensionsManager_init env st = (?s\<lparr>availableExtensions := ?L\<rparr>, Inr ?L)"
      unfolding i collect_Arr [OF e] av by (rule refl)
    have t: "trace (?s\<lparr>availableExtensions := ?L\<rparr>) = trace st @ [Log_discovered (length found)]"
      by (simp add: log_def)
    have o: "options (?s\<lparr>availableExtensions := ?L\<rparr>)
               = put_prop ''discover'' (Arr directories) (normalise_discover (options st))"
      by (simp add: log_def)
    show ?thesis
      using c t o True by (intro exI [of _ "?s\<lparr>availableExtensions := ?L\<rparr>"]) simp
  next
    case False
    have fd: "found = []" using f False by simp
    let ?s = "log [Log_autodiscover_off]
                (?st0\<lparr>options := put_prop ''discover'' (Arr xs1) (options ?st0)\<rparr>)"
    have e: "get_prop (options ?s) ''extensions'' = Arr allow"
      using a0 by (simp add: get_prop_put_other log_def)
    have i: "ExtensionsManager_init env st = collect env ?s"
      using xs s1 False by (simp add: ExtensionsManager_init_def Let_def)
    have av: "availableExtensions ?s @ usedExtensions ?s = found @ usedExtensions st"
      by (simp add: log_def fd)
    have c: "ExtensionsManager_init env st = (?s\<lparr>availableExtensions := ?L\<rparr>, Inr ?L)"
      unfolding i collect_Arr [OF e] av by (rule refl)
    have t: "trace (?s\<lparr>availableExtensions := ?L\<rparr>) = trace st @ [Log_autodiscover_off]"
      by (simp add: log_def)
    have o: "options (?s\<lparr>availableExtensions := ?L\<rparr>)
               = put_prop ''discover'' (Arr xs1) (normalise_discover (options st))"
      by (simp add: log_def)
    show ?thesis
      using c t o False by (intro exI [of _ "?s\<lparr>availableExtensions := ?L\<rparr>"]) simp
  qed
qed

lemma invoked_in_filtered:
  assumes "Invoked i \<in> set (new_events s (activate env (sort_by_cmp cmp (filter P cands)) s))"
  shows "i < length (sort_by_cmp cmp (filter P cands)) \<and> P (sort_by_cmp cmp (filter P cands) ! i)"
proof -
  let ?L = "sort_by_cmp cmp (filter P cands)"
  from activate_invoked_index [OF assms] have len: "i < length ?L" by simp
  then have "?L ! i \<in> set ?L" by (rule nth_mem)
  then have "?L ! i \<in># mset ?L" by simp
  then have "?L ! i \<in># mset (filter P cands)" by (simp only: mset_sort_by_cmp)
  then have "P (?L ! i)" by simp
  with len show ?thesis by simp
qed

text \<open>
  Claim C5.  When the runtime configuration carries an allow-list of extension names
  (the option \<^verbatim>\<open>extensions\<close>, an array), \<^verbatim>\<open>ExtensionsManager.init\<close> retains exactly the
  candidates whose name is in the list.  The candidates are the extensions found by
  \<^verbatim>\<open>discover\<close>, when the first element of the normalised option \<^verbatim>\<open>discover\<close> is truthy
  (none otherwise), followed by the registered ones.  The list handed to \<^verbatim>\<open>useMany\<close> is
  the sorted list of the retained candidates, so it has the same members, each as often.
  Dropping is silent: the only line \<^verbatim>\<open>ExtensionsManager.init\<close> logs is the one about
  discovery.  Every entry point invoked afterwards belongs to a retained candidate, so a
  dropped candidate is never activated; the same holds of \<^verbatim>\<open>KitesInstance.init\<close> as a
  whole when no configuration file is loaded.
\<close>

theorem allow_list_filters_candidates:
  assumes "get_prop (options st) ''extensions'' = Arr allow"
    and "get_prop (normalise_discover (options st)) ''discover'' = Arr xs"
    and "shift xs = (autodiscover, xs1)"
    and "shift xs1 = (depth, directories)"
    and "found = (if truthy autodiscover
                  then discover env (discover_args (normalise_discover (options st)) depth directories)
                  else [])"
  shows "\<exists>st1 exts. ExtensionsManager_init env st = (st1, Inr exts)
           \<and> exts = sort_by_cmp (sorter env) (filter (\<lambda>e. name_val e \<in> set allow) (found @ usedExtensions st))
           \<and> mset exts = mset (filter (\<lambda>e. name_val e \<in> set allow) (found @ usedExtensions st))
           \<and> new_events st st1 = [if truthy autodiscover then Log_discovered (length found)
                                     else Log_autodiscover_off]
           \<and> (\<forall>i. Invoked i \<in> set (new_events st1 (activate env exts st1))
                  \<longrightarrow> i < length exts \<and> name_val (exts ! i) \<in> set allow)
           \<and> (\<not> truthy (get_prop (options st) ''loadConfig'')
                \<longrightarrow> (\<forall>i. Invoked i \<in> set (new_events st (Kites_init env st))
                        \<longrightarrow> i < length exts \<and> name_val (exts ! i) \<in> set allow))"
proof -
  let ?L = "sort_by_cmp (sorter env) (filter (\<lambda>e. name_val e \<in> set allow) (found @ usedExtensions st))"
  let ?line = "if truthy autodiscover then Log_discovered (length found) else Log_autodiscover_off"
  from init_allow_list [OF assms] obtain st1
    where i: "ExtensionsManager_init env st = (st1, Inr ?L)"
      and t: "trace st1 = trace st @ [?line]"
    by blast
  have m: "mset ?L = mset (filter (\<lambda>e. name_val e \<in> set allow) (found @ usedExtensions st))"
    by (rule mset_sort_by_cmp)
  have n: "new_events st st1 = [?line]"
    using t by (rule new_events_append)
  have v: "\<forall>i. Invoked i \<in> set (new_events st1 (activate env ?L st1))
                  \<longrightarrow> i < length ?L \<and> name_val (?L ! i) \<in> set allow"
    by (intro allI impI) (rule invoked_in_filtered)
  have k: "\<not> truthy (get_prop (options st) ''loadConfig'')
                \<longrightarrow> (\<forall>i. Invoked i \<in> set (new_events st (Kites_init env st))
                        \<longrightarrow> i < length ?L \<and> name_val (?L ! i) \<in> set allow)"
  proof (intro impI allI)
    fix i
    assume lc: "\<not> truthy (get_prop (options st) ''loadConfig'')"
      and inv: "Invoked i \<in> set (new_events st (Kites_init env st))"
    let ?s2 = "silence_logs (log [Log_initializing] st)"
    have io: "initOptions env st = (st, None)"
      using lc by (simp add: initOptions_def)
    have o2: "options ?s2 = options st" by (simp add: log_def)
    have u2: "usedExtensions ?s2 = usedExtensions st" by (simp add: log_def)
    have t2: "trace ?s2 = trace st @ [Log_initializing]" by (simp add: log_def)
    have h1: "get_prop (options ?s2) ''extensions'' = Arr allow"
      unfolding o2 by (rule assms(1))
    have h2: "get_prop (normalise_discover (options ?s2)) ''discover'' = Arr xs"
      unfolding o2 by (rule assms(2))
    have h5: "found = (if truthy autodiscover
                  then discover env (discover_args (normalise_discover (options ?s2)) depth directories)
                  else [])"
      unfolding o2 by (rule assms(5))
    from init_allow_list [OF h1 h2 assms(3) assms(4) h5] obtain s3
      where i2: "ExtensionsManager_init env ?s2
                   = (s3, Inr (sort_by_cmp (sorter env)
                        (filter (\<lambda>e. name_val e \<in> set allow) (found @ usedExtensions ?s2))))"
        and t3: "trace s3 = trace ?s2 @ [?line]"
      by blast
    have i3: "ExtensionsManager_init env ?s2 = (s3, Inr ?L)"
      using i2 unfolding u2 .
    have ki: "Kites_init env st = activate env ?L s3"
      unfolding Kites_init_def io using i3 by simp
    have "trace (Kites_init env st)
            = trace st @ ([Log_initializing, ?line] @ new_events s3 (activate env ?L s3))"
      unfolding ki using activate_trace [of env ?L s3] t2 t3 by simp
    then have "new_events st (Kites_init env st)
                 = [Log_initializing, ?line] @ new_events s3 (activate env ?L s3)"
      by (rule new_events_append)
    with inv have "Invoked i \<in> set (new_events s3 (activate env ?L s3))"
      by (auto split: if_splits)
    then show "i < length ?L \<and> name_val (?L ! i) \<in> set allow"
      by (rule invoked_in_filtered)
  qed
  show ?thesis
    by (rule exI [of _ st1], rule exI [of _ ?L], intro conjI) (rule i, rule refl, rule m, rule n, rule v, rule k)
qed


theorem allow_list_filters_candidates_witness:
  "get_prop (options (use (Inl \<lparr>fn_name = ''C'', body = []\<rparr>) (use (Inl \<lparr>fn_name = ''B'', body = []\<rparr>)
        (new_kites discovering_env [(''extensions'', Arr [Str ''A'', Str ''C'']), (''discover'', Bool True)]))))
      ''extensions'' = Arr [Str ''A'', Str ''C'']
   \<and> get_prop (normalise_discover (options (use (Inl \<lparr>fn_name = ''C'', body = []\<rparr>) (use (Inl \<lparr>fn_name = ''B'', body = []\<rparr>)
        (new_kites discovering_env [(''extensions'', Arr [Str ''A'', Str ''C'']), (''discover'', Bool True)])))))
      ''discover'' = Arr [Bool True, Num 2, Str ''/app'']
   \<and> map name (discover discovering_env (discover_args (normalise_discover (options
        (use (Inl \<lparr>fn_name = ''C'', body = []\<rparr>) (use (Inl \<lparr>fn_name = ''B'', body = []\<rparr>)
        (new_kites discovering_env [(''extensions'', Arr [Str ''A'', Str ''C'']), (''discover'', Bool True)])))))
        (Num 2) [Str ''/app''])
      @ usedExtensions (use (Inl \<lparr>fn_name = ''C'', body = []\<rparr>) (use (Inl \<lparr>fn_name = ''B'', body = []\<rparr>)
        (new_kites discovering_env [(''extensions'', Arr [Str ''A'', Str ''C'']), (''discover'', Bool True)]))))
      = [Some ''D'', Some ''A'', Some ''B'', Some ''C'']
   \<and> (\<exists>st1 exts. ExtensionsManager_init discovering_env
        (use (Inl \<lparr>fn_name = ''C'', body = []\<rparr>) (use (Inl \<lparr>fn_name = ''B'', body = []\<rparr>)
        (new_kites discovering_env [(''extensions'', Arr [Str ''A'', Str ''C'']), (''discover'', Bool True)])))
          = (st1, Inr exts)
        \<and> map name exts = [Some ''A'', Some ''C'']
        \<and> new_events (use (Inl \<lparr>fn_name = ''C'', body = []\<rparr>) (use (Inl \<lparr>fn_name = ''B'', body = []\<rparr>)
        (new_kites discovering_env [(''extensions'', Arr [Str ''A'', Str ''C'']), (''discover'', Bool True)]))) st1
            = [Log_discovered 2]
        \<and> Invoked 1 \<in> set (new_events (use (Inl \<lparr>fn_name = ''C'', body = []\<rparr>) (use (Inl \<lparr>fn_name = ''B'', body = []\<rparr>)
        (new_kites discovering_env [(''extensions'', Arr [Str ''A'', Str ''C'']), (''discover'', Bool True)])))
              (Kites_init discovering_env (use (Inl \<lparr>fn_name = ''C'', body = []\<rparr>) (use (Inl \<lparr>fn_name = ''B'', body = []\<rparr>)
        (new_kites discovering_env [(''extensions'', Arr [Str ''A'', Str ''C'']), (''discover'', Bool True)])))))
        \<and> 1 < length exts \<and> name_val (exts ! 1) \<in> set [Str ''A'', Str ''C''])
   \<and> filter is_Invoked (new_events (use (Inl \<lparr>fn_name = ''C'', body = []\<rparr>) (use (Inl \<lparr>fn_name = ''B'', body = []\<rparr>)
        (new_kites discovering_env [(''extensions'', Arr [Str ''A'', Str ''C'']), (''discover'', Bool True)])))
       (Kites_init discovering_env (use (Inl \<lparr>fn_name = ''C'', body = []\<rparr>) (use (Inl \<lparr>fn_name = ''B'', body = []\<rparr>)
        (new_kites discovering_env [(''extensions'', Arr [Str ''A'', Str ''C'']), (''discover'', Bool True)])))))
      = [Invoked 0, Invoked 1]"
proof -
  let ?st = "use (Inl \<lparr>fn_name = ''C'', body = []\<rparr>) (use (Inl \<lparr>fn_name = ''B'', body = []\<rparr>)
        (new_kites discovering_env [(''extensions'', Arr [Str ''A'', Str ''C'']), (''discover'', Bool True)]))"
  let ?allow = "[Str ''A'', Str ''C'']"
  let ?found = "if truthy (Bool True)
                then discover discovering_env (discover_args (normalise_discover (options ?st)) (Num 2) [Str ''/app''])
                else []"
  have h1: "get_prop (options ?st) ''extensions'' = Arr ?allow" by code_simp
  have h2: "get_prop (normalise_discover (options ?st)) ''discover'' = Arr [Bool True, Num 2, Str ''/app'']"
    by code_simp
  have h3: "shift [Bool True, Num 2, Str ''/app''] = (Bool True, [Num 2, Str ''/app''])" by simp
  have h4: "shift [Num 2, Str ''/app''] = (Num 2, [Str ''/app''])" by simp
  have h5: "?found = ?found" by (rule refl)
  have lc: "\<not> truthy (get_prop (options ?st) ''loadConfig'')" by code_simp
  have c: "map name (discover discovering_env (discover_args (normalise_discover (options ?st)) (Num 2) [Str ''/app''])
             @ usedExtensions ?st) = [Some ''D'', Some ''A'', Some ''B'', Some ''C'']"
    by code_simp
  have nm: "map name (sort_by_cmp (sorter discovering_env)
              (filter (\<lambda>e. name_val e \<in> set ?allow) (?found @ usedExtensions ?st)))
            = [Some ''A'', Some ''C'']"
    by code_simp
  have ln: "[if truthy (Bool True) then Log_discovered (length ?found) else Log_autodiscover_off]
              = [Log_discovered 2]"
    by code_simp
  have tr: "filter is_Invoked (new_events ?st (Kites_init discovering_env ?st)) = [Invoked 0, Invoked 1]"
    by code_simp
  from allow_list_filters_candidates [OF h1 h2 h3 h4 h5] obtain st1 exts
    where i: "ExtensionsManager_init discovering_env ?st = (st1, Inr exts)"
      and e: "exts = sort_by_cmp (sorter discovering_env)
                       (filter (\<lambda>e. name_val e \<in> set ?allow) (?found @ usedExtensions ?st))"
      and n: "new_events ?st st1
                = [if truthy (Bool True) then Log_discovered (length ?found) else Log_autodiscover_off]"
      and k: "\<not> truthy (get_prop (options ?st) ''loadConfig'')
                \<longrightarrow> (\<forall>i. Invoked i \<in> set (new_events ?st (Kites_init discovering_env ?st))
                        \<longrightarrow> i < length exts \<and> name_val (exts ! i) \<in> set ?allow)"
    by (elim exE conjE)
  have nm': "map name exts = [Some ''A'', Some ''C'']"
    unfolding e by (rule nm)
  have n': "new_events ?st st1 = [Log_discovered 2]"
    unfolding n by (rule ln)
  from k lc have k': "\<forall>i. Invoked i \<in> set (new_events ?st (Kites_init discovering_env ?st))
                        \<longrightarrow> i < length exts \<and> name_val (exts ! i) \<in> set ?allow"
    by (rule mp)
  have inv: "Invoked 1 \<in> set (new_events ?st (Kites_init discovering_env ?st))"
    by code_simp
  from spec [OF k'] inv
  have ret: "1 < length exts \<and> name_val (exts ! 1) \<in> set ?allow"
    by (rule mp)
  from ret have r1: "1 < length exts" by (rule conjunct1)
  from ret have r2: "name_val (exts ! 1) \<in> set ?allow" by (rule conjunct2)
  have ex: "\<exists>st1 exts. ExtensionsManager_init discovering_env ?st = (st1, Inr exts)
        \<and> map name exts = [Some ''A'', Some ''C'']
        \<and> new_events ?st st1 = [Log_discovered 2]
        \<and> Invoked 1 \<in> set (new_events ?st (Kites_init discovering_env ?st))
        \<and> 1 < length exts \<and> name_val (exts ! 1) \<in> set ?allow"
    by (rule exI [of _ st1], rule exI [of _ exts], intro conjI)
       (rule i, rule nm', rule n', rule inv, rule r1, rule r2)
  show ?thesis
    by (intro conjI) (rule h1, rule h2, rule c, rule ex, rule tr)
qed

section \<open>Registration\<close>

lemma get_prop_put_same: "get_prop (put_prop k v obj) k = v"
  by (simp add: get_prop_def map_of_put_prop)

lemma map_of_assign_other:
  "map_of src k = None \<Longrightarrow> map_of (assign target src) k = map_of target k"
proof (induction src arbitrary: target)
  case Nil
  then show ?case by (simp add: assign_def)
next
  case (Cons kv src)
  obtain k' v where kv: "kv = (k', v)" by (cases kv)
  from Cons.prems kv have ne: "k' \<noteq> k" and rest: "map_of src k = None"
    by (auto split: if_splits)
  have "map_of (assign target (kv # src)) k = map_of (assign (put_prop k' v target) src) k"
    by (simp add: assign_def kv)
  also have "\<dots> = map_of (put_prop k' v target) k" by (rule Cons.IH [OF rest])
  also have "\<dots> = map_of target k" using ne by (simp add: map_of_put_prop)
  finally show ?case .
qed

lemma default_parentModuleDirectory:
  assumes "map_of user ''parentModuleDirectory'' = None"
  shows "get_prop (options (new_kites env user)) ''parentModuleDirectory'' = Str (parent_dirname env)"
proof -
  have "map_of (assign (defaults env) user) ''parentModuleDirectory''
          = map_of (defaults env) ''parentModuleDirectory''"
    by (rule map_of_assign_other [OF assms])
  then show ?thesis by (simp add: get_prop_def new_kites_def defaults_def)
qed

lemma init_without_discovery:
  assumes d: "get_prop (options s) ''discover'' = Bool False"
    and a: "\<not> truthy (get_prop (options s) ''extensions'')"
  shows "\<exists>s3. ExtensionsManager_init env s = (s3, Inr (sort_by_cmp (sorter env) (usedExtensions s)))
           \<and> trace s3 = trace s @ [Log_autodiscover_off]
           \<and> (\<forall>k. k \<noteq> ''discover'' \<longrightarrow> get_prop (options s3) k = get_prop (options s) k)"
proof -
  let ?o1 = "put_prop ''discover'' (Arr [Bool False, Num 2, get_prop (options s) ''appDirectory'']) (options s)"
  let ?o2 = "put_prop ''discover'' (Arr [Num 2, get_prop (options s) ''appDirectory'']) ?o1"
  have n: "normalise_discover (options s) = ?o1"
    using d by (simp add: normalise_discover_def Let_def)
  let ?s2 = "log [Log_autodiscover_off] (s\<lparr>availableExtensions := [], options := ?o2\<rparr>)"
  have i: "ExtensionsManager_init env s = collect env ?s2"
    by (simp add: ExtensionsManager_init_def n Let_def get_prop_put_same)
  have e: "get_prop (options ?s2) ''extensions'' = get_prop (options s) ''extensions''"
    by (simp add: get_prop_put_other)
  let ?L = "sort_by_cmp (sorter env) (usedExtensions s)"
  have c: "collect env ?s2 = (?s2\<lparr>availableExtensions := ?L\<rparr>, Inr ?L)"
    unfolding collect_def Let_def e using a by (simp add: log_def)
  have "trace (?s2\<lparr>availableExtensions := ?L\<rparr>) = trace s @ [Log_autodiscover_off]" by simp
  moreover have "\<forall>k. k \<noteq> ''discover'' \<longrightarrow> get_prop (options (?s2\<lparr>availableExtensions := ?L\<rparr>)) k = get_prop (options s) k"
    by (simp add: get_prop_put_other)
  ultimately show ?thesis using i c by (intro exI [of _ "?s2\<lparr>availableExtensions := ?L\<rparr>"]) simp
qed

lemma deferred_entry_point_runs_at_init:
  assumes lc: "\<not> truthy (get_prop (options st) ''loadConfig'')"
    and d: "get_prop (options st) ''discover'' = Bool False"
    and a: "\<not> truthy (get_prop (options st) ''extensions'')"
    and u: "usedExtensions st = []"
    and ns: "get_prop (options st) (toLowerCase (if fn_name f = [] then ''<no-name>'' else fn_name f)) = Undefined"
  shows "filter is_Invoked (new_events st (Kites_init env (use (Inl f) st))) = [Invoked 0]"
proof -
  let ?nm = "if fn_name f = [] then ''<no-name>'' else fn_name f"
  let ?desc = "\<lparr>name = Some ?nm, dependencies = [],
          directory = string_or_undefined (get_prop (options st) ''parentModuleDirectory''),
          main = Main_function f, init = None, ext_options = None\<rparr>"
  let ?st' = "use (Inl f) st"
  have st': "?st' = st\<lparr>usedExtensions := [?desc]\<rparr>"
    using u by (simp add: use_def)
  have io: "initOptions env ?st' = (?st', None)"
    using lc by (simp add: initOptions_def st')
  let ?s2 = "silence_logs (log [Log_initializing] ?st')"
  have o2: "options ?s2 = options st" by (simp add: st')
  have u2: "usedExtensions ?s2 = [?desc]" by (simp add: st' log_def)
  have t2: "trace ?s2 = trace st @ [Log_initializing]" by (simp add: st')
  from init_without_discovery [of ?s2 env] d a o2 obtain s3
    where i: "ExtensionsManager_init env ?s2 = (s3, Inr (sort_by_cmp (sorter env) (usedExtensions ?s2)))"
      and t3: "trace s3 = trace ?s2 @ [Log_autodiscover_off]"
      and o3: "\<forall>k. k \<noteq> ''discover'' \<longrightarrow> get_prop (options s3) k = get_prop (options ?s2) k"
    by auto
  have srt: "sort_by_cmp (sorter env) (usedExtensions ?s2) = [?desc]"
    unfolding u2 by (simp add: sort_by_cmp_def)
  have k: "Kites_init env ?st' = activate env [?desc] s3"
    unfolding Kites_init_def io using i srt by simp
  have nm: "?nm \<noteq> []" by simp
  have key: "options_key ?desc = toLowerCase ?nm"
    unfolding options_key_def using nm by simp
  have "toLowerCase ?nm \<noteq> ''discover''"
  proof
    assume "toLowerCase ?nm = ''discover''"
    with ns d show False by simp
  qed
  with o3 have "get_prop (options s3) (toLowerCase ?nm) = get_prop (options ?s2) (toLowerCase ?nm)"
    by blast
  with o2 ns have und: "get_prop (options s3) (toLowerCase ?nm) = Undefined" by simp
  have "merged_options (options s3) ?desc = []"
    unfolding merged_options_def key und by (simp add: own_props_def own_options_def assign_def)
  then have nd: "\<not> disabled (options s3) ?desc"
    by (simp add: disabled_def get_prop_def)
  have he: "has_entry env ?desc"
    by (simp add: has_entry_def entry_of_def)
  from nd he have s: "starts env (options s3) ([?desc] ! 0)"
    by (simp add: starts_def)
  have inv: "filter is_Invoked (new_events s3 (activate env [?desc] s3)) = [Invoked 0]"
    unfolding activate_invoked using s by simp
  have "trace (Kites_init env ?st')
          = trace st @ ([Log_initializing, Log_autodiscover_off] @ new_events s3 (activate env [?desc] s3))"
    unfolding k using activate_trace [of env "[?desc]" s3] t2 t3 by simp
  then have "new_events st (Kites_init env ?st')
               = [Log_initializing, Log_autodiscover_off] @ new_events s3 (activate env [?desc] s3)"
    by (rule new_events_append)
  with inv show ?thesis by simp
qed

text \<open>
  Claim C7.  A bare activation function passed to \<^verbatim>\<open>use\<close> is wrapped into a
  descriptor with no dependencies, named after the function (or \<^verbatim>\<open><no-name>\<close> when
  the function has no name), whose directory is the parent-module directory of the
  instance: the value of the option \<^verbatim>\<open>parentModuleDirectory\<close>, which is the directory
  of the parent module unless the caller's options override it.  The call appends this
  descriptor to the used-extensions list and changes nothing else; no event happens,
  so no entry point runs.  \<^verbatim>\<open>KitesInstance.use\<close> does the same.  The activation is
  deferred to \<^verbatim>\<open>init()\<close>: on an instance without configuration loading, discovery,
  allow-list, other registrations or a runtime namespace for the function's name,
  \<^verbatim>\<open>init()\<close> invokes the entry point, once.
\<close>

theorem use_function_wraps_and_defers:
  "(\<exists>desc. use (Inl f) st = st\<lparr>usedExtensions := usedExtensions st @ [desc]\<rparr>
       \<and> name desc = Some (if fn_name f = [] then ''<no-name>'' else fn_name f)
       \<and> dependencies desc = []
       \<and> main desc = Main_function f
       \<and> init desc = None
       \<and> ext_options desc = None
       \<and> (\<forall>d. get_prop (options st) ''parentModuleDirectory'' = Str d \<longrightarrow> directory desc = Some d))
   \<and> Kites_use (Inl f) st = use (Inl f) st
   \<and> new_events st (use (Inl f) st) = []
   \<and> (map_of user ''parentModuleDirectory'' = None \<longrightarrow>
         map directory (usedExtensions (use (Inl f) (new_kites env user))) = [Some (parent_dirname env)])
   \<and> (\<not> truthy (get_prop (options st) ''loadConfig'')
        \<and> get_prop (options st) ''discover'' = Bool False
        \<and> \<not> truthy (get_prop (options st) ''extensions'')
        \<and> usedExtensions st = []
        \<and> get_prop (options st) (toLowerCase (if fn_name f = [] then ''<no-name>'' else fn_name f)) = Undefined
        \<longrightarrow> filter is_Invoked (new_events st (Kites_init env (use (Inl f) st))) = [Invoked 0])"
proof -
  let ?desc = "\<lparr>name = Some (if fn_name f = [] then ''<no-name>'' else fn_name f), dependencies = [],
          directory = string_or_undefined (get_prop (options st) ''parentModuleDirectory''),
          main = Main_function f, init = None, ext_options = None\<rparr>"
  have a1: "use (Inl f) st = st\<lparr>usedExtensions := usedExtensions st @ [?desc]\<rparr>"
    by (simp add: use_def)
  have a2: "name ?desc = Some (if fn_name f = [] then ''<no-name>'' else fn_name f)" by simp
  have a3: "dependencies ?desc = []" by simp
  have a4: "main ?desc = Main_function f" by simp
  have a5: "init ?desc = None" by simp
  have a6: "ext_options ?desc = None" by simp
  have a7: "\<forall>d. get_prop (options st) ''parentModuleDirectory'' = Str d \<longrightarrow> directory ?desc = Some d"
    by (simp add: string_or_undefined_def)
  have c1: "\<exists>desc. use (Inl f) st = st\<lparr>usedExtensions := usedExtensions st @ [desc]\<rparr>
       \<and> name desc = Some (if fn_name f = [] then ''<no-name>'' else fn_name f)
       \<and> dependencies desc = []
       \<and> main desc = Main_function f
       \<and> init desc = None
       \<and> ext_options desc = None
       \<and> (\<forall>d. get_prop (options st) ''parentModuleDirectory'' = Str d \<longrightarrow> directory desc = Some d)"
    by (rule exI [of _ ?desc], intro conjI) (rule a1, rule a2, rule a3, rule a4, rule a5, rule a6, rule a7)
  have c2: "Kites_use (Inl f) st = use (Inl f) st"
    by (simp add: Kites_use_def)
  have c3: "new_events st (use (Inl f) st) = []"
    unfolding a1 by (simp add: new_events_def)
  have c4: "map_of user ''parentModuleDirectory'' = None \<longrightarrow>
         map directory (usedExtensions (use (Inl f) (new_kites env user))) = [Some (parent_dirname env)]"
  proof
    assume "map_of user ''parentModuleDirectory'' = None"
    from default_parentModuleDirectory [OF this, of env]
    have g: "get_prop (options (new_kites env user)) ''parentModuleDirectory'' = Str (parent_dirname env)" .
    have u: "usedExtensions (new_kites env user) = []"
      by (simp add: new_kites_def)
    have "map directory (usedExtensions (use (Inl f) (new_kites env user)))
            = map directory (usedExtensions (new_kites env user))
              @ [string_or_undefined (get_prop (options (new_kites env user)) ''parentModuleDirectory'')]"
      by (simp add: use_def)
    also have "\<dots> = [Some (parent_dirname env)]"
      unfolding g u by (simp add: string_or_undefined_def)
    finally show "map directory (usedExtensions (use (Inl f) (new_kites env user)))
                       = [Some (parent_dirname env)]" .
  qed
  have c5: "\<not> truthy (get_prop (options st) ''loadConfig'')
        \<and> get_prop (options st) ''discover'' = Bool False
        \<and> \<not> truthy (get_prop (options st) ''extensions'')
        \<and> usedExtensions st = []
        \<and> get_prop (options st) (toLowerCase (if fn_name f = [] then ''<no-name>'' else fn_name f)) = Undefined
        \<longrightarrow> filter is_Invoked (new_events st (Kites_init env (use (Inl f) st))) = [Invoked 0]"
  proof
    assume h: "\<not> truthy (get_prop (options st) ''loadConfig'')
        \<and> get_prop (options st) ''discover'' = Bool False
        \<and> \<not> truthy (get_prop (options st) ''extensions'')
        \<and> usedExtensions st = []
        \<and> get_prop (options st) (toLowerCase (if fn_name f = [] then ''<no-name>'' else fn_name f)) = Undefined"
    from h have h1: "\<not> truthy (get_prop (options st) ''loadConfig'')" by (rule conjunct1)
    from h have h2: "get_prop (options st) ''discover'' = Bool False" by (elim conjE)
    from h have h3: "\<not> truthy (get_prop (options st) ''extensions'')" by (elim conjE)
    from h have h4: "usedExtensions st = []" by (elim conjE)
    from h have h5: "get_prop (options st) (toLowerCase (if fn_name f = [] then ''<no-name>'' else fn_name f)) = Undefined"
      by (elim conjE)
    show "filter is_Invoked (new_events st (Kites_init env (use (Inl f) st))) = [Invoked 0]"
      by (rule deferred_entry_point_runs_at_init [OF h1 h2 h3 h4 h5])
  qed
  show ?thesis
    by (intro conjI) (rule c1, rule c2, rule c3, rule c4, rule c5)
qed

theorem use_function_wraps_and_defers_witness:
  "get_prop (options (new_kites example_env [])) ''parentModuleDirectory'' = Str ''/app/src''
   \<and> usedExtensions (use (Inl fn_router) (new_kites example_env []))
       = [\<lparr>name = Some ''router'', dependencies = [], directory = Some ''/app/src'',
           main = Main_function fn_router, init = None, ext_options = None\<rparr>]
   \<and> map directory (usedExtensions (use (Inl fn_router) (new_kites example_env [])))
       = [Some (parent_dirname example_env)]
   \<and> usedExtensions (use (Inl \<lparr>fn_name = [], body = []\<rparr>) (new_kites example_env []))
       = [\<lparr>name = Some ''<no-name>'', dependencies = [], directory = Some ''/app/src'',
           main = Main_function \<lparr>fn_name = [], body = []\<rparr>, init = None, ext_options = None\<rparr>]
   \<and> new_events (new_kites example_env []) (use (Inl fn_router) (new_kites example_env [])) = []
   \<and> filter is_Invoked (new_events (new_kites example_env [])
         (Kites_init example_env (use (Inl fn_router) (new_kites example_env [])))) = [Invoked 0]"
proof -
  let ?st = "new_kites example_env []"
  have g: "get_prop (options ?st) ''parentModuleDirectory'' = Str ''/app/src''" by code_simp
  have v1: "usedExtensions (use (Inl fn_router) ?st)
       = [\<lparr>name = Some ''router'', dependencies = [], directory = Some ''/app/src'',
           main = Main_function fn_router, init = None, ext_options = None\<rparr>]"
    by code_simp
  have v2: "usedExtensions (use (Inl \<lparr>fn_name = [], body = []\<rparr>) ?st)
       = [\<lparr>name = Some ''<no-name>'', dependencies = [], directory = Some ''/app/src'',
           main = Main_function \<lparr>fn_name = [], body = []\<rparr>, init = None, ext_options = None\<rparr>]"
    by code_simp
  have h0: "map_of ([] :: js_object) ''parentModuleDirectory'' = None" by simp
  have h1: "\<not> truthy (get_prop (options ?st) ''loadConfig'')" by code_simp
  have h2: "get_prop (options ?st) ''discover'' = Bool False" by code_simp
  have h3: "\<not> truthy (get_prop (options ?st) ''extensions'')" by code_simp
  have h4: "usedExtensions ?st = []" by code_simp
  have h5: "get_prop (options ?st)
              (toLowerCase (if fn_name fn_router = [] then ''<no-name>'' else fn_name fn_router)) = Undefined"
    by code_simp
  note t = use_function_wraps_and_defers [of fn_router ?st "[]" example_env]
  from t have e: "new_events ?st (use (Inl fn_router) ?st) = []" by (elim conjE)
  from t have d': "map_of ([] :: js_object) ''parentModuleDirectory'' = None \<longrightarrow>
         map directory (usedExtensions (use (Inl fn_router) ?st)) = [Some (parent_dirname example_env)]"
    by (elim conjE)
  from d' h0 have d: "map directory (usedExtensions (use (Inl fn_router) ?st)) = [Some (parent_dirname example_env)]"
    by (rule mp)
  from t have i': "\<not> truthy (get_prop (options ?st) ''loadConfig'')
        \<and> get_prop (options ?st) ''discover'' = Bool False
        \<and> \<not> truthy (get_prop (options ?st) ''extensions'')
        \<and> usedExtensions ?st = []
        \<and> get_prop (options ?st)
              (toLowerCase (if fn_name fn_router = [] then ''<no-name>'' else fn_name fn_router)) = Undefined
        \<longrightarrow> filter is_Invoked (new_events ?st (Kites_init example_env (use (Inl fn_router) ?st))) = [Invoked 0]"
    by (elim conjE)
  have hyps: "\<not> truthy (get_prop (options ?st) ''loadConfig'')
        \<and> get_prop (options ?st) ''discover'' = Bool False
        \<and> \<not> truthy (get_prop (options ?st) ''extensions'')
        \<and> usedExtensions ?st = []
        \<and> get_prop (options ?st)
              (toLowerCase (if fn_name fn_router = [] then ''<no-name>'' else fn_name fn_router)) = Undefined"
    by (intro conjI) (rule h1, rule h2, rule h3, rule h4, rule h5)
  from i' hyps
  have i: "filter is_Invoked (new_events ?st (Kites_init example_env (use (Inl fn_router) ?st))) = [Invoked 0]"
    by (rule mp)
  show ?thesis
    by (intro conjI) (rule g, rule v1, rule d, rule v2, rule e, rule i)
qed

section \<open>A failing activation\<close>

lemma run_body_thrown:
  "run_body i acts e st = (t, e1, st1, js) \<Longrightarrow> t = thrown_by acts"
proof (induction i acts e st arbitrary: t e1 st1 js rule: run_body.induct)
  case (4 i k ok acts e st)
  then show ?case by (auto split: prod.splits)
qed auto

lemma run_body_name:
  "run_body i acts e st = (t, e1, st1, js) \<Longrightarrow> name e1 = name e"
proof (induction i acts e st arbitrary: t e1 st1 js rule: run_body.induct)
  case (4 i k ok acts e st)
  then show ?case by (auto split: prod.splits)
qed auto

lemma run_body_directory:
  "run_body i acts e st = (t, e1, st1, js) \<Longrightarrow> directory e1 = directory e"
proof (induction i acts e st arbitrary: t e1 st1 js rule: run_body.induct)
  case (4 i k ok acts e st)
  then show ?case by (auto split: prod.splits)
qed auto

lemma run_body_state:
  "run_body i acts e st = (t, e1, st1, js) \<Longrightarrow>
     st1 = st\<lparr>initializeListeners := initializeListeners st @ body_initializers acts\<rparr>"
proof (induction i acts e st arbitrary: t e1 st1 js rule: run_body.induct)
  case (4 i k ok acts e st)
  obtain t' e' st' js' where r: "run_body i acts e st = (t', e', st', js')"
    by (cases "run_body i acts e st") auto
  with "4.prems" have "st1 = st'" by simp
  with "4.IH" [OF r] show ?case by simp
qed simp_all

lemma errorMsg_cong:
  assumes a: "name e1 = name e" and b: "directory e1 = directory e"
  shows "errorMsg e1 s = errorMsg e s"
  unfolding errorMsg_def name_text_def a b by (rule refl)

lemma catch_error_cong:
  assumes a: "name e1 = name e" and b: "directory e1 = directory e"
  shows "catch_error e1 x = catch_error e x"
  unfolding catch_error_def errorMsg_cong [OF a b] by (rule refl)

text \<open>The children of a job, as far as the race to the rejection goes.\<close>

lemma exec_reject_depth:
  assumes "exec env j st = (st1, js)"
  shows "case reject_depth env j of
           None \<Rightarrow> \<forall>j'\<in>set js. reject_depth env j' = None
         | Some 0 \<Rightarrow> \<forall>j'\<in>set js. reject_depth env j' = None
         | Some (Suc d) \<Rightarrow>
             \<exists>ks j1. js = ks @ [j1] \<and> (\<forall>j'\<in>set ks. reject_depth env j' = None)
                \<and> reject_depth env j1 = Some d \<and> rejects_with env j1 = rejects_with env j"
proof (cases j)
  case (Then_main i e)
  show ?thesis
  proof (cases "entry_of env e")
    case (Call acts)
    obtain t e1 st2 ks where rb: "run_body i acts e (log [Invoked i] st) = (t, e1, st2, ks)"
      by (cases "run_body i acts e (log [Invoked i] st)") auto
    from run_body_jobs [OF rb] have ks: "\<forall>j'\<in>set ks. reject_depth env j' = None" by auto
    from run_body_thrown [OF rb] have t: "t = thrown_by acts" .
    have ce: "\<And>x. catch_error e1 x = catch_error e x"
      by (rule catch_error_cong [OF run_body_name [OF rb] run_body_directory [OF rb]])
    from assms Then_main Call rb have js: "js = ks @ [case t of None \<Rightarrow> Resolve_thenable i e1 None
                      | Some x \<Rightarrow> Skip_registered i e1 x]"
      by auto
    show ?thesis
    proof (cases "thrown_by acts")
      case None
      with js t ks Then_main Call show ?thesis by auto
    next
      case (Some x)
      with js t ks Then_main Call ce show ?thesis by auto
    qed
  next
    case (Load_failed x)
    with assms Then_main show ?thesis by auto
  next
    case Invalid
    with assms Then_main show ?thesis by (auto simp: invalid_reason_def)
  qed
next
  case (Resolve_thenable i e r)
  with assms show ?thesis by (cases r) auto
next
  case (Settle_first i e r)
  with assms show ?thesis by (cases r) auto
next
  case (Kites_resume r)
  with assms show ?thesis by (cases r) auto
next
  case (All_resolveElement i)
  with assms show ?thesis
    by (auto simp: Let_def split: if_splits dest: settle_all_jobs)
next
  case (All_reject err)
  with assms show ?thesis
    by (auto dest: settle_all_jobs)
next
  case (Catch_handler i e x)
  with assms show ?thesis by (auto simp: catch_error_def split: option.splits)
qed (use assms in \<open>auto split: if_splits option.splits nat.splits\<close>)

lemma exec_Then_main_Call:
  assumes "exec env (Then_main i e) st = (st1, js)" and "entry_of env e = Call acts"
  shows "\<exists>e1 ks. js = ks @ [case thrown_by acts of None \<Rightarrow> Resolve_thenable i e1 None
                                 | Some x \<Rightarrow> Skip_registered i e1 x]
           \<and> (\<forall>j'\<in>set ks. \<exists>k ok. j' = Async_step i k ok)
           \<and> name e1 = name e \<and> directory e1 = directory e
           \<and> st1 = st\<lparr>trace := trace st @ [Invoked i],
                      initializeListeners := initializeListeners st @ body_initializers acts,
                      availableExtensions := (availableExtensions st)[i := e1]\<rparr>"
proof -
  obtain t e1 st2 ks where rb: "run_body i acts e (log [Invoked i] st) = (t, e1, st2, ks)"
    by (cases "run_body i acts e (log [Invoked i] st)") auto
  from run_body_thrown [OF rb] have t: "t = thrown_by acts" .
  from run_body_state [OF rb] have st2: "st2 = (log [Invoked i] st)\<lparr>initializeListeners :=
      initializeListeners (log [Invoked i] st) @ body_initializers acts\<rparr>" .
  from assms rb have js: "js = ks @ [case t of None \<Rightarrow> Resolve_thenable i e1 None
                                 | Some x \<Rightarrow> Skip_registered i e1 x]"
    and st1: "st1 = st2\<lparr>availableExtensions := (availableExtensions st2)[i := e1]\<rparr>"
    by auto
  have "st1 = st\<lparr>trace := trace st @ [Invoked i],
                      initializeListeners := initializeListeners st @ body_initializers acts,
                      availableExtensions := (availableExtensions st)[i := e1]\<rparr>"
    unfolding st1 st2 by (simp add: log_def)
  with js t run_body_jobs [OF rb] run_body_name [OF rb] run_body_directory [OF rb]
  show ?thesis by blast
qed

lemma exec_fulfils:
  assumes "exec env j st = (st1, js)"
  shows "length (filter (fulfils env) js) \<le> (if fulfils env j \<and> \<not> is_resolveElement j then 1 else 0)"
proof (cases j)
  case (Then_main i e)
  show ?thesis
  proof (cases "entry_of env e")
    case (Call acts)
    from exec_Then_main_Call [OF assms [unfolded Then_main] Call] obtain e1 ks
      where js: "js = ks @ [case thrown_by acts of None \<Rightarrow> Resolve_thenable i e1 None
                                 | Some x \<Rightarrow> Skip_registered i e1 x]"
        and ks: "\<forall>j'\<in>set ks. \<exists>k ok. j' = Async_step i k ok"
      by blast
    from ks have "filter (fulfils env) ks = []" by (auto simp: filter_empty_conv)
    with js Then_main Call show ?thesis by (cases "thrown_by acts") auto
  next
    case (Load_failed x)
    with assms Then_main show ?thesis by auto
  next
    case Invalid
    with assms Then_main show ?thesis by auto
  qed
next
  case (Resolve_thenable i e r)
  with assms show ?thesis by (cases r) auto
next
  case (Settle_first i e r)
  with assms show ?thesis by (cases r) auto
next
  case (Kites_resume r)
  with assms show ?thesis by (cases r) auto
next
  case (All_resolveElement i)
  with assms show ?thesis
    by (auto simp: Let_def split: if_splits dest: settle_all_jobs)
next
  case (All_reject err)
  with assms show ?thesis
    by (auto dest: settle_all_jobs)
qed (use assms in \<open>auto split: if_splits option.splits nat.splits\<close>)

lemma exec_all_remaining:
  assumes "exec env j st = (st1, js)"
  shows "all_remaining st1 = (if is_resolveElement j then all_remaining st - 1 else all_remaining st)"
proof (cases j)
  case (Then_main i e)
  show ?thesis
  proof (cases "entry_of env e")
    case (Call acts)
    from exec_Then_main_Call [OF assms [unfolded Then_main] Call] Then_main show ?thesis by auto
  next
    case (Load_failed x)
    with assms Then_main show ?thesis by auto
  next
    case Invalid
    with assms Then_main show ?thesis by auto
  qed
next
  case (Settle_first i e r)
  with assms show ?thesis by (cases r) auto
next
  case (Kites_resume r)
  with assms show ?thesis
    by (cases r) (auto simp: finish_init_def fire_def emit_initialized_def log_def Let_def)
qed (use assms in \<open>auto simp: settle_all_def log_def Let_def split: if_splits option.splits nat.splits\<close>)

lemma exec_all_result:
  assumes "exec env j st = (st1, js)"
  shows "all_result st1 =
           (case j of
              All_reject err \<Rightarrow> (if all_result st = None then Some (Rejected err) else all_result st)
            | All_resolveElement i \<Rightarrow>
                (if all_result st = None \<and> all_remaining st - 1 = 0 then Some Fulfilled else all_result st)
            | _ \<Rightarrow> all_result st)"
proof (cases j)
  case (Then_main i e)
  show ?thesis
  proof (cases "entry_of env e")
    case (Call acts)
    from exec_Then_main_Call [OF assms [unfolded Then_main] Call] Then_main show ?thesis by auto
  next
    case (Load_failed x)
    with assms Then_main show ?thesis by auto
  next
    case Invalid
    with assms Then_main show ?thesis by auto
  qed
next
  case (Settle_first i e r)
  with assms show ?thesis by (cases r) auto
next
  case (Kites_resume r)
  with assms show ?thesis
    by (cases r) (auto simp: finish_init_def fire_def emit_initialized_def log_def Let_def)
qed (use assms in \<open>auto simp: settle_all_def log_def Let_def split: if_splits option.splits nat.splits\<close>)

lemma depth_zero: "reject_depth env j = Some 0 \<Longrightarrow> \<exists>e. j = All_reject e"
proof (cases j)
  case (Then_main i e)
  assume "reject_depth env j = Some 0"
  with Then_main show ?thesis
    by (cases "entry_of env e") (auto split: option.splits)
next
  case (Resolve_thenable i e r)
  assume "reject_depth env j = Some 0"
  with Resolve_thenable show ?thesis by (cases r) auto
next
  case (Settle_first i e r)
  assume "reject_depth env j = Some 0"
  with Settle_first show ?thesis by (cases r) auto
qed auto

lemma depth_not_fulfils:
  "reject_depth env j = Some d \<Longrightarrow> \<not> fulfils env j \<and> \<not> is_resolveElement j"
proof (cases j)
  case (Then_main i e)
  assume "reject_depth env j = Some d"
  with Then_main show ?thesis
    by (cases "entry_of env e") (auto split: option.splits)
next
  case (Resolve_thenable i e r)
  assume "reject_depth env j = Some d"
  with Resolve_thenable show ?thesis by (cases r) auto
next
  case (Settle_first i e r)
  assume "reject_depth env j = Some d"
  with Settle_first show ?thesis by (cases r) auto
qed auto

lemma depth_Suc_not_All:
  "reject_depth env j = Some (Suc d) \<Longrightarrow> \<not> is_All j"
  by (cases j) auto

lemma not_All_result:
  assumes "exec env j st = (st1, js)" and "\<not> is_All j"
  shows "all_result st1 = all_result st"
  using exec_all_result [OF assms(1)] assms(2) by (cases j) auto

lemma settled_stays:
  assumes "exec env j st = (st1, js)" and "all_result st = Some r"
  shows "all_result st1 = Some r"
  using exec_all_result [OF assms(1)] assms(2) by (cases j) auto

lemma race_step:
  assumes r: "race env err (j # q) st" and ex: "exec env j st = (st1, js)"
  shows "race env err (q @ js) st1"
proof (cases "all_result st = Some (Rejected err)")
  case True
  from settled_stays [OF ex True] show ?thesis by (simp add: race_def)
next
  case False
  with r obtain q1 jb q2 d where pend: "all_result st = None"
    and cnt: "length (filter (fulfils env) (j # q)) < all_remaining st"
    and dec: "j # q = q1 @ jb # q2"
    and d: "reject_depth env jb = Some d"
    and w: "rejects_with env jb = Some err"
    and s1: "\<forall>j\<in>set q1. slower env d j"
    and s2: "\<forall>j\<in>set q2. not_faster env d j"
    unfolding race_def by blast
  note fj = exec_fulfils [OF ex]
  note rem = exec_all_remaining [OF ex]
  show ?thesis
  proof (cases q1)
    case Nil
    with dec have jb: "jb = j" and q: "q = q2" by simp_all
    show ?thesis
    proof (cases d)
      case 0
      with d jb depth_zero obtain e where e: "j = All_reject e" by blast
      with w jb have "e = err" by simp
      with e exec_all_result [OF ex] pend have "all_result st1 = Some (Rejected err)" by simp
      then show ?thesis by (simp add: race_def)
    next
      case (Suc d')
      with d jb have dj: "reject_depth env j = Some (Suc d')" by simp
      from exec_reject_depth [OF ex] dj obtain ks j1 where js: "js = ks @ [j1]"
        and ks: "\<forall>j'\<in>set ks. reject_depth env j' = None"
        and d1: "reject_depth env j1 = Some d'"
        and w1: "rejects_with env j1 = rejects_with env j"
        by auto
      from not_All_result [OF ex depth_Suc_not_All [OF dj]] pend
      have pend1: "all_result st1 = None" by simp
      from depth_not_fulfils [OF dj] have nf: "\<not> fulfils env j" and nr: "\<not> is_resolveElement j"
        by simp_all
      from nf nr fj have "length (filter (fulfils env) js) = 0" by simp
      with cnt nf nr rem have cnt1: "length (filter (fulfils env) (q @ js)) < all_remaining st1"
        by simp
      have dec1: "q @ js = (q2 @ ks) @ j1 # []" using q js by simp
      have "\<forall>j\<in>set (q2 @ ks). slower env d' j"
      proof
        fix x assume "x \<in> set (q2 @ ks)"
        then consider "x \<in> set q2" | "x \<in> set ks" by auto
        then show "slower env d' x"
        proof cases
          case 1
          with s2 have "not_faster env d x" by blast
          with Suc show ?thesis by (auto simp: not_faster_def slower_def split: option.splits)
        next
          case 2
          with ks show ?thesis by (simp add: slower_def)
        qed
      qed
      moreover have "\<forall>j\<in>set []. not_faster env d' j" by simp
      moreover from w w1 jb have "rejects_with env j1 = Some err" by simp
      ultimately show ?thesis
        unfolding race_def using pend1 cnt1 dec1 d1 by blast
    qed
  next
    case (Cons a q1')
    with dec have a: "a = j" and q: "q = q1' @ jb # q2" by simp_all
    from s1 Cons a have sj: "slower env d j" by simp
    have kids: "\<forall>j'\<in>set js. not_faster env d j'"
    proof (cases "reject_depth env j")
      case None
      with exec_reject_depth [OF ex] show ?thesis by (auto simp: not_faster_def)
    next
      case (Some dj)
      with sj have lt: "d < dj" by (simp add: slower_def)
      then obtain d'' where dj: "dj = Suc d''" by (cases dj) auto
      from exec_reject_depth [OF ex] Some dj obtain ks j1 where js: "js = ks @ [j1]"
        and ks: "\<forall>j'\<in>set ks. reject_depth env j' = None"
        and d1: "reject_depth env j1 = Some d''"
        by auto
      from lt dj have "d \<le> d''" by simp
      with js ks d1 show ?thesis by (auto simp: not_faster_def)
    qed
    have notrej: "\<And>e. j \<noteq> All_reject e"
    proof
      fix e assume "j = All_reject e"
      with sj show False by (simp add: slower_def)
    qed
    have pend1: "all_result st1 = None"
    proof (cases "is_resolveElement j")
      case True
      then obtain i where i: "j = All_resolveElement i" by (cases j) auto
      with cnt have "2 \<le> all_remaining st" by simp
      then have "all_remaining st - 1 \<noteq> 0" by simp
      with i exec_all_result [OF ex] pend show ?thesis by simp
    next
      case False
      with notrej have "\<not> is_All j" by (cases j) auto
      from not_All_result [OF ex this] pend show ?thesis by simp
    qed
    have cnt1: "length (filter (fulfils env) (q @ js)) < all_remaining st1"
    proof (cases "is_resolveElement j")
      case True
      then obtain i where i: "j = All_resolveElement i" by (cases j) auto
      with fj have "length (filter (fulfils env) js) = 0" by simp
      with cnt i rem show ?thesis by simp
    next
      case False
      with fj cnt rem show ?thesis by (cases "fulfils env j") auto
    qed
    have dec1: "q @ js = q1' @ jb # (q2 @ js)" using q by simp
    have "\<forall>j\<in>set q1'. slower env d j" using s1 Cons by simp
    moreover have "\<forall>j\<in>set (q2 @ js). not_faster env d j" using s2 kids by auto
    ultimately show ?thesis
      unfolding race_def using pend1 cnt1 dec1 d w by blast
  qed
qed

lemma exec_init_jobs:
  assumes "exec env j st = (st1, js)"
  shows "filter is_init_job js =
           (case j of
              Init_thenable \<Rightarrow> (case all_result st of Some r \<Rightarrow> [Init_settle r] | None \<Rightarrow> [])
            | Init_settle r \<Rightarrow> [Kites_resume r]
            | All_reject e \<Rightarrow>
                (if all_result st = None \<and> init_waiting st then [Init_settle (Rejected e)] else [])
            | All_resolveElement i \<Rightarrow>
                (if all_result st = None \<and> all_remaining st - 1 = 0 \<and> init_waiting st
                 then [Init_settle Fulfilled] else [])
            | _ \<Rightarrow> [])"
proof (cases j)
  case (Then_main i e)
  show ?thesis
  proof (cases "entry_of env e")
    case (Call acts)
    from exec_Then_main_Call [OF assms [unfolded Then_main] Call] obtain e1 ks
      where js: "js = ks @ [case thrown_by acts of None \<Rightarrow> Resolve_thenable i e1 None
                                 | Some x \<Rightarrow> Skip_registered i e1 x]"
        and ks: "\<forall>j'\<in>set ks. \<exists>k ok. j' = Async_step i k ok"
      by blast
    from ks have "filter is_init_job ks = []" by (auto simp: filter_empty_conv)
    with js Then_main show ?thesis by (cases "thrown_by acts") auto
  next
    case (Load_failed x)
    with assms Then_main show ?thesis by auto
  next
    case Invalid
    with assms Then_main show ?thesis by auto
  qed
next
  case (Settle_first i e r)
  with assms show ?thesis by (cases r) auto
next
  case (Kites_resume r)
  with assms show ?thesis by (cases r) auto
qed (use assms in \<open>auto simp: settle_all_def Let_def split: if_splits option.splits nat.splits\<close>)

lemma exec_init_waiting:
  assumes "exec env j st = (st1, js)"
  shows "init_waiting st1 = (if j = Init_thenable \<and> all_result st = None then True else init_waiting st)"
proof (cases j)
  case (Then_main i e)
  show ?thesis
  proof (cases "entry_of env e")
    case (Call acts)
    from exec_Then_main_Call [OF assms [unfolded Then_main] Call] Then_main show ?thesis by auto
  next
    case (Load_failed x)
    with assms Then_main show ?thesis by auto
  next
    case Invalid
    with assms Then_main show ?thesis by auto
  qed
next
  case (Settle_first i e r)
  with assms show ?thesis by (cases r) auto
next
  case (Kites_resume r)
  with assms show ?thesis
    by (cases r) (auto simp: finish_init_def fire_def emit_initialized_def log_def Let_def)
qed (use assms in \<open>auto simp: settle_all_def log_def Let_def split: if_splits option.splits nat.splits\<close>)

lemma exec_init_result:
  assumes "exec env j st = (st1, js)"
  shows "init_result st1 = (case j of Kites_resume r \<Rightarrow> Some r | _ \<Rightarrow> init_result st)"
proof (cases j)
  case (Then_main i e)
  show ?thesis
  proof (cases "entry_of env e")
    case (Call acts)
    from exec_Then_main_Call [OF assms [unfolded Then_main] Call] Then_main show ?thesis by auto
  next
    case (Load_failed x)
    with assms Then_main show ?thesis by auto
  next
    case Invalid
    with assms Then_main show ?thesis by auto
  qed
next
  case (Settle_first i e r)
  with assms show ?thesis by (cases r) auto
next
  case (Kites_resume r)
  with assms show ?thesis
    by (cases r) (auto simp: finish_init_def fire_def emit_initialized_def log_def Let_def)
qed (use assms in \<open>auto simp: settle_all_def log_def Let_def split: if_splits option.splits nat.splits\<close>)

lemma exec_quiet:
  assumes "exec env j st = (st1, js)" and "j \<noteq> Kites_resume Fulfilled"
  shows "\<exists>es. trace st1 = trace st @ es \<and> (\<forall>ev\<in>set es. \<not> is_finish ev)"
proof (cases j)
  case (Then_main i e)
  show ?thesis
  proof (cases "entry_of env e")
    case (Call acts)
    from exec_Then_main_Call [OF assms(1) [unfolded Then_main] Call]
    have "trace st1 = trace st @ [Invoked i]" by auto
    then show ?thesis by auto
  next
    case (Load_failed x)
    with assms Then_main show ?thesis by auto
  next
    case Invalid
    with assms Then_main show ?thesis by auto
  qed
next
  case (Settle_first i e r)
  with assms show ?thesis by (cases r) auto
next
  case (Kites_resume r)
  with assms show ?thesis by (cases r) auto
next
  case (All_resolveElement i)
  with assms show ?thesis
    by (auto simp: Let_def split: if_splits dest: trace_settle_all)
next
  case (All_reject err)
  with assms show ?thesis
    by (auto dest: trace_settle_all)
qed (use assms in \<open>auto split: if_splits option.splits nat.splits\<close>)

lemma race_result: "race env err q st \<Longrightarrow> all_result st = None \<or> all_result st = Some (Rejected err)"
  unfolding race_def by blast

lemma phase_step:
  assumes r: "race env err (j # q) st" and r1: "race env err (q @ js) st1"
    and p: "phase err (j # q) st" and ex: "exec env j st = (st1, js)"
  shows "phase err (q @ js) st1"
proof -
  note kids = exec_init_jobs [OF ex]
  note wait = exec_init_waiting [OF ex]
  note res = exec_init_result [OF ex]
  note all = exec_all_result [OF ex]
  consider (thenable) "j = Init_thenable" | (settle) r' where "j = Init_settle r'"
    | (resume) r' where "j = Kites_resume r'"
    | (reject) e where "j = All_reject e" | (element) i where "j = All_resolveElement i"
    | (other) "\<not> is_init_job j" "\<not> is_All j"
    by (cases j) auto
  then show ?thesis
  proof cases
    case thenable
    with p have f: "filter is_init_job q = []" and nw: "\<not> init_waiting st" and nr: "init_result st = None"
      unfolding phase_def by auto
    show ?thesis
    proof (cases "all_result st")
      case None
      with thenable kids wait res all f nr show ?thesis
        unfolding phase_def by simp
    next
      case (Some r')
      with race_result [OF r] have "r' = Rejected err" by simp
      with Some thenable kids wait res all f nr show ?thesis
        unfolding phase_def by simp
    qed
  next
    case (settle r')
    with p have f: "filter is_init_job q = []" and r': "r' = Rejected err"
      and a: "all_result st \<noteq> None" and nr: "init_result st = None"
      unfolding phase_def by auto
    with settle kids res all show ?thesis
      unfolding phase_def by simp
  next
    case (resume r')
    with p have f: "filter is_init_job q = []" and r': "r' = Rejected err"
      and a: "all_result st \<noteq> None"
      unfolding phase_def by auto
    with resume kids res all show ?thesis
      unfolding phase_def by simp
  next
    case (reject e)
    show ?thesis
    proof (cases "all_result st = None \<and> init_waiting st")
      case True
      with reject all have "all_result st1 = Some (Rejected e)" by simp
      with race_result [OF r1] have e: "e = err" by simp
      from True p reject have f: "filter is_init_job q = []" and nr: "init_result st = None"
        unfolding phase_def by auto
      from True reject kids e have "filter is_init_job js = [Init_settle (Rejected err)]" by simp
      with f nr reject res all True show ?thesis
        unfolding phase_def by simp
    next
      case False
      with reject kids have k: "filter is_init_job js = []" by auto
      from reject wait have w: "init_waiting st1 = init_waiting st" by simp
      from reject res have rr: "init_result st1 = init_result st" by simp
      have keep: "all_result st \<noteq> None \<Longrightarrow> all_result st1 \<noteq> None"
        using reject all by simp
      have none: "init_waiting st \<Longrightarrow> all_result st = None \<Longrightarrow> all_result st1 = None"
        using False by simp
      from p reject k w rr keep none show ?thesis
        unfolding phase_def by auto
    qed
  next
    case (element i)
    show ?thesis
    proof (cases "all_result st = None \<and> all_remaining st - 1 = 0")
      case True
      with element all have "all_result st1 = Some Fulfilled" by simp
      with race_result [OF r1] show ?thesis by simp
    next
      case False
      with element kids have k: "filter is_init_job js = []" by auto
      from element wait have w: "init_waiting st1 = init_waiting st" by simp
      from element res have rr: "init_result st1 = init_result st" by simp
      from element all False have a: "all_result st1 = all_result st" by auto
      from p element k w rr a show ?thesis
        unfolding phase_def by auto
    qed
  next
    case other
    from other kids have k: "filter is_init_job js = []" by (cases j) auto
    from other wait have w: "init_waiting st1 = init_waiting st" by (cases j) auto
    from other res have rr: "init_result st1 = init_result st" by (cases j) auto
    from not_All_result [OF ex other(2)] have a: "all_result st1 = all_result st" .
    from p other(1) k w rr a show ?thesis
      unfolding phase_def by auto
  qed
qed

lemma phase_no_finish:
  assumes "phase err (j # q) st"
  shows "j \<noteq> Kites_resume Fulfilled"
proof
  assume "j = Kites_resume Fulfilled"
  with assms show False unfolding phase_def by auto
qed

text \<open>The three invariants together, along the whole queue.\<close>

lemma drain_rejected:
  assumes "race env err q st" and "phase err q st"
  shows "all_result (drain env q st) = Some (Rejected err)
         \<and> init_result (drain env q st) = Some (Rejected err)
         \<and> (\<exists>es. trace (drain env q st) = trace st @ es \<and> (\<forall>ev\<in>set es. \<not> is_finish ev))"
proof -
  let ?I = "\<lambda>q' st'. race env err q' st' \<and> phase err q' st'
               \<and> (\<exists>es. trace st' = trace st @ es \<and> (\<forall>ev\<in>set es. \<not> is_finish ev))"
  have fin: "?I [] (drain env q st)"
  proof (rule drain_invariant [where I = ?I])
    show "?I q st" using assms by simp
  next
    fix j q' st' st1 js
    assume inv: "?I (j # q') st'" and ex: "exec env j st' = (st1, js)"
    from inv have r: "race env err (j # q') st'" and p: "phase err (j # q') st'" by simp_all
    from inv obtain es where es: "trace st' = trace st @ es" and q: "\<forall>ev\<in>set es. \<not> is_finish ev"
      by blast
    from race_step [OF r ex] have r1: "race env err (q' @ js) st1" .
    from phase_step [OF r r1 p ex] have p1: "phase err (q' @ js) st1" .
    from exec_quiet [OF ex phase_no_finish [OF p]] obtain ds
      where ds: "trace st1 = trace st' @ ds" and qd: "\<forall>ev\<in>set ds. \<not> is_finish ev"
      by blast
    have "trace st1 = trace st @ (es @ ds)" using es ds by simp
    moreover have "\<forall>ev\<in>set (es @ ds). \<not> is_finish ev" using q qd by auto
    ultimately have "\<exists>es. trace st1 = trace st @ es \<and> (\<forall>ev\<in>set es. \<not> is_finish ev)" by blast
    with r1 p1 show "?I (q' @ js) st1" by simp
  qed
  from fin have a: "all_result (drain env q st) = Some (Rejected err)"
    unfolding race_def by simp
  from fin a have "init_result (drain env q st) = Some (Rejected err)"
    unfolding phase_def by simp
  with a fin show ?thesis by blast
qed

lemma chain_heads_append:
  "chain_heads opts k (xs @ ys) = chain_heads opts k xs @ chain_heads opts (k + length xs) ys"
  by (induction xs arbitrary: k) auto

lemma initial_fulfil_count:
  "length (filter (fulfils env) (chain_heads opts k exts))
     + length (filter (fulfils env) (resolved_at_once opts k exts))
   = length (filter (will_fulfil env opts) exts)"
  by (induction exts arbitrary: k) (auto simp: will_fulfil_def)

lemma chain_heads_not_init [simp]: "filter is_init_job (chain_heads opts k exts) = []"
  by (induction exts arbitrary: k) auto

lemma resolved_at_once_not_init [simp]: "filter is_init_job (resolved_at_once opts k exts) = []"
  by (induction exts arbitrary: k) auto

lemma resolved_at_once_depth:
  "j \<in> set (resolved_at_once opts k exts) \<Longrightarrow> reject_depth env j = None"
  by (induction exts arbitrary: k) (auto split: if_splits)

lemma Then_main_not_faster: "not_faster env 3 (Then_main i e)"
  by (cases "entry_of env e") (auto simp: not_faster_def split: option.splits)

lemma chain_heads_not_faster:
  "j \<in> set (chain_heads opts k exts) \<Longrightarrow> not_faster env 3 j"
  using chain_heads_index [of j opts k exts] Then_main_not_faster by auto

lemma sync_failure_with_merged [simp]:
  "sync_failure env (with_merged opts e) = sync_failure env e"
  by (simp add: sync_failure_def)

lemma Then_main_depth:
  "reject_depth env (Then_main i e) =
     (case sync_failure env e of
        Some x \<Rightarrow> Some 3
      | None \<Rightarrow> (if entry_of env e = Invalid then Some 5 else None))"
  by (cases "entry_of env e") (auto simp: sync_failure_def split: option.splits)

lemma Then_main_slower:
  "sync_failure env e = None \<Longrightarrow> slower env 3 (Then_main i e)"
  by (cases "entry_of env e") (auto simp: sync_failure_def slower_def)

lemma Then_main_rejects_with:
  "sync_failure env e = Some x \<Longrightarrow> rejects_with env (Then_main i e) = Some (catch_error e x)"
  by (cases "entry_of env e") (auto simp: sync_failure_def)

lemma initial_race:
  assumes b: "b < length exts"
    and en: "\<not> disabled opts (exts ! b)"
    and fail: "sync_failure env (exts ! b) = Some x"
    and first: "\<forall>i<b. disabled opts (exts ! i) \<or> sync_failure env (exts ! i) = None"
    and pend: "all_result st = None" and rem: "all_remaining st = length exts"
  shows "race env (catch_error (exts ! b) x)
           (chain_heads opts 0 exts @ resolved_at_once opts 0 exts @ [Init_thenable]) st"
proof -
  let ?jb = "Then_main b (with_merged opts (exts ! b))"
  let ?q1 = "chain_heads opts 0 (take b exts)"
  let ?q2 = "chain_heads opts (Suc b) (drop (Suc b) exts) @ resolved_at_once opts 0 exts @ [Init_thenable]"
  have split: "exts = take b exts @ exts ! b # drop (Suc b) exts"
    using b by (rule id_take_nth_drop)
  have "chain_heads opts 0 exts
          = chain_heads opts 0 (take b exts) @ chain_heads opts b (exts ! b # drop (Suc b) exts)"
    using chain_heads_append [of opts 0 "take b exts" "exts ! b # drop (Suc b) exts"] split b
    by simp
  with en have dec: "chain_heads opts 0 exts @ resolved_at_once opts 0 exts @ [Init_thenable]
                      = ?q1 @ ?jb # ?q2"
    by simp
  have d: "reject_depth env ?jb = Some 3"
    unfolding Then_main_depth sync_failure_with_merged fail by simp
  have ce: "catch_error (with_merged opts (exts ! b)) x = catch_error (exts ! b) x"
    by (rule catch_error_cong) (simp_all add: with_merged_def)
  have "sync_failure env (with_merged opts (exts ! b)) = Some x"
    using fail by simp
  from Then_main_rejects_with [OF this, of b]
  have w: "rejects_with env ?jb = Some (catch_error (exts ! b) x)"
    unfolding ce .
  have s1: "\<forall>j\<in>set ?q1. slower env 3 j"
  proof
    fix j assume "j \<in> set ?q1"
    from chain_heads_index [OF this] obtain n where n: "n < length (take b exts)"
      and j: "j = Then_main (0 + n) (with_merged opts (take b exts ! n))"
      and ne: "\<not> disabled opts (take b exts ! n)"
      by blast
    from n have nb: "n < b" by simp
    then have nth: "take b exts ! n = exts ! n" by simp
    with first nb ne have "sync_failure env (with_merged opts (exts ! n)) = None" by auto
    from Then_main_slower [OF this] j nth show "slower env 3 j"
      by simp
  qed
  have s2: "\<forall>j\<in>set ?q2. not_faster env 3 j"
  proof
    fix j assume "j \<in> set ?q2"
    then consider "j \<in> set (chain_heads opts (Suc b) (drop (Suc b) exts))"
      | "j \<in> set (resolved_at_once opts 0 exts)" | "j = Init_thenable"
      by auto
    then show "not_faster env 3 j"
    proof cases
      case 1
      then show ?thesis by (rule chain_heads_not_faster)
    next
      case 2
      from resolved_at_once_depth [OF 2] show ?thesis by (simp add: not_faster_def)
    next
      case 3
      then show ?thesis by (simp add: not_faster_def)
    qed
  qed
  have "\<not> will_fulfil env opts (exts ! b)"
    using en fail by (cases "entry_of env (exts ! b)") (auto simp: will_fulfil_def sync_failure_def)
  moreover have "exts ! b \<in> set exts" using b by simp
  ultimately have "length (filter (will_fulfil env opts) exts) < length exts"
    by (rule length_filter_less [rotated])
  with initial_fulfil_count [of env opts 0 exts] rem
  have cnt: "length (filter (fulfils env)
               (chain_heads opts 0 exts @ resolved_at_once opts 0 exts @ [Init_thenable]))
             < all_remaining st"
    by simp
  show ?thesis
    unfolding race_def using pend cnt dec d w s1 s2 by blast
qed

lemma skip_events_not_finish: "ev \<in> set (skip_events opts k exts) \<Longrightarrow> \<not> is_finish ev"
  by (induction exts arbitrary: k) (auto split: if_splits)

lemma initial_phase:
  assumes "\<not> init_waiting st" and "init_result st = None"
  shows "phase err (chain_heads opts 0 exts @ resolved_at_once opts 0 exts @ [Init_thenable]) st"
  using assms unfolding phase_def by simp

lemma errorMsg_has_name:
  assumes "name e = Some n"
  shows "sublist n (errorMsg e stack)"
proof (cases "n = []")
  case True
  then show ?thesis by simp
next
  case False
  with assms have "errorMsg e stack = ''Error when loading extension '' @ n @ (os_EOL @ stack)"
    by (simp add: errorMsg_def name_text_def)
  then show ?thesis unfolding sublist_def by blast
qed

text \<open>
  Claim C2, as stated: if the entry point of \<open>B\<close> throws (or the promise it returns
  rejects), the entry point of \<open>C\<close>, ordered after \<open>B\<close>, is never invoked, the rest
  of \<^verbatim>\<open>initialize()\<close> is aborted and the initialization promise rejects with a message
  that contains the name of \<open>B\<close>.  The chains of all descriptors are started together
  by \<^verbatim>\<open>useMany\<close>, so the entry point of \<open>C\<close> is invoked although \<open>B\<close> threw; and
  \<open>f\<close> drops what the entry point returns, so a rejected promise returned by \<open>B\<close>
  goes unnoticed and \<^verbatim>\<open>init()\<close> is fulfilled.
\<close>

theorem failure_does_not_stop_later_extensions_counterexample:
  "trace (Kites_init example_env
       (use (Inl fn_router) (use (Inl fn_broken) (new_kites example_env []))))
     = [Log_initializing, Log_autodiscover_off, Invoked 0, Invoked 1,
        Log_error (''Error when loading extension broken'' @ os_EOL @ ''Error: boom''),
        Settled 0 (Rejected (Error (''Error when loading extension broken'' @ os_EOL @ ''Error: boom''))),
        Emit_registered 1, Settled 1 Fulfilled]
   \<and> Invoked 1 \<in> set (trace (Kites_init example_env
       (use (Inl fn_router) (use (Inl fn_broken) (new_kites example_env [])))))
   \<and> trace (Kites_init example_env
       (use (Inl fn_router) (use (Inl fn_rejecting) (new_kites example_env []))))
     = [Log_initializing, Log_autodiscover_off, Invoked 0, Invoked 1, Async_settled 0 False,
        Emit_registered 0, Emit_registered 1, Settled 0 Fulfilled, Settled 1 Fulfilled,
        Fired ''routes'', Log_initialized, Emit_initialized False]
   \<and> init_result (Kites_init example_env
       (use (Inl fn_router) (use (Inl fn_rejecting) (new_kites example_env []))))
     = Some Fulfilled"
  by code_simp

text \<open>
  Claim C2, amended: for every list handed to \<^verbatim>\<open>useMany\<close> that contains \<open>B\<close>, not
  disabled, if the call of the entry point of \<open>B\<close> throws a value other than
  \<^verbatim>\<open>null\<close> or \<^verbatim>\<open>undefined\<close> and no entry point ordered before \<open>B\<close> throws, then
  the initialization promise rejects with an error whose message contains the name of
  \<open>B\<close>, and the rest of \<^verbatim>\<open>KitesInstance.init\<close> is aborted: no deferred initializer
  runs and no \<^verbatim>\<open>initialized\<close> notification is emitted.  The entry point of every
  descriptor that is not disabled and has one, those ordered after \<open>B\<close> included, is
  invoked all the same.
\<close>

theorem failing_entry_point_rejects_init:
  assumes b: "b < length exts"
    and en: "\<not> disabled (options st) (exts ! b)"
    and fail: "sync_failure env (exts ! b) = Some x"
    and stack: "stack_text x = Some stack"
    and first: "\<forall>i<b. disabled (options st) (exts ! i) \<or> sync_failure env (exts ! i) = None"
    and nm: "name (exts ! b) = Some n"
  shows "init_result (activate env exts st) = Some (Rejected (Error (errorMsg (exts ! b) stack)))
         \<and> sublist n (errorMsg (exts ! b) stack)
         \<and> (\<forall>ev\<in>set (new_events st (activate env exts st)). \<not> is_finish ev)
         \<and> (\<forall>c<length exts. starts env (options st) (exts ! c)
               \<longrightarrow> Invoked c \<in> set (new_events st (activate env exts st)))"
proof -
  let ?q = "chain_heads (options st) 0 exts @ resolved_at_once (options st) 0 exts @ [Init_thenable]"
  let ?st1 = "st\<lparr>init_waiting := False, init_result := None,
           trace := trace st @ skip_events (options st) 0 exts,
           all_remaining := length exts, all_result := (if exts = [] then Some Fulfilled else None),
           availableExtensions := map (with_merged (options st)) exts\<rparr>"
  let ?err = "Error (errorMsg (exts ! b) stack)"
  from b have ne: "exts \<noteq> []" by auto
  have ce: "catch_error (exts ! b) x = ?err"
    using stack by (simp add: catch_error_def)
  have "race env (catch_error (exts ! b) x) ?q ?st1"
    by (rule initial_race [OF b en fail first]) (simp_all add: ne)
  then have r: "race env ?err ?q ?st1" by (simp only: ce)
  have p: "phase ?err ?q ?st1"
    by (rule initial_phase) simp_all
  from drain_rejected [OF r p] obtain es
    where res: "init_result (drain env ?q ?st1) = Some (Rejected ?err)"
      and es: "trace (drain env ?q ?st1) = trace ?st1 @ es"
      and quiet: "\<forall>ev\<in>set es. \<not> is_finish ev"
    by blast
  have "trace (activate env exts st) = trace st @ (skip_events (options st) 0 exts @ es)"
    using es by (simp add: activate_eq)
  then have new: "new_events st (activate env exts st) = skip_events (options st) 0 exts @ es"
    by (rule new_events_append)
  have sk: "\<forall>ev\<in>set (skip_events (options st) 0 exts). \<not> is_finish ev"
    using skip_events_not_finish by blast
  have c1: "init_result (activate env exts st) = Some (Rejected ?err)"
    using res by (simp add: activate_eq)
  have c2: "sublist n (errorMsg (exts ! b) stack)"
    by (rule errorMsg_has_name [OF nm])
  have c3: "\<forall>ev\<in>set (new_events st (activate env exts st)). \<not> is_finish ev"
    using new sk quiet by auto
  have c4: "\<forall>c<length exts. starts env (options st) (exts ! c)
               \<longrightarrow> Invoked c \<in> set (new_events st (activate env exts st))"
  proof (intro allI impI)
    fix c assume c: "c < length exts" and s: "starts env (options st) (exts ! c)"
    then have "Invoked c \<in> set (map Invoked (filter (\<lambda>i. starts env (options st) (exts ! i)) [0..<length exts]))"
      by simp
    then have "Invoked c \<in> set (filter is_Invoked (new_events st (activate env exts st)))"
      by (simp only: activate_invoked)
    then show "Invoked c \<in> set (new_events st (activate env exts st))" by simp
  qed
  from c1 c2 c3 c4 show ?thesis by blast
qed

theorem failing_entry_point_rejects_init_witness:
  "sync_failure example_env
       ([\<lparr>name = Some ''broken'', dependencies = [], directory = None,
          main = Main_function fn_broken, init = None, ext_options = None\<rparr>,
         \<lparr>name = Some ''router'', dependencies = [], directory = None,
          main = Main_function fn_router, init = None, ext_options = None\<rparr>] ! 0)
     = Some (Thrown_Error ''Error: boom'')
   \<and> init_result (activate example_env
       [\<lparr>name = Some ''broken'', dependencies = [], directory = None,
          main = Main_function fn_broken, init = None, ext_options = None\<rparr>,
         \<lparr>name = Some ''router'', dependencies = [], directory = None,
          main = Main_function fn_router, init = None, ext_options = None\<rparr>]
       (new_kites example_env []))
     = Some (Rejected (Error (''Error when loading extension broken'' @ os_EOL @ ''Error: boom'')))
   \<and> sublist ''broken'' (''Error when loading extension broken'' @ os_EOL @ ''Error: boom'')
   \<and> Invoked 1 \<in> set (new_events (new_kites example_env []) (activate example_env
       [\<lparr>name = Some ''broken'', dependencies = [], directory = None,
          main = Main_function fn_broken, init = None, ext_options = None\<rparr>,
         \<lparr>name = Some ''router'', dependencies = [], directory = None,
          main = Main_function fn_router, init = None, ext_options = None\<rparr>]
       (new_kites example_env [])))"
proof -
  let ?B = "\<lparr>name = Some ''broken'', dependencies = [], directory = None,
          main = Main_function fn_broken, init = None, ext_options = None\<rparr>"
  let ?C = "\<lparr>name = Some ''router'', dependencies = [], directory = None,
          main = Main_function fn_router, init = None, ext_options = None\<rparr>"
  let ?st = "new_kites example_env []"
  have h1: "0 < length [?B, ?C]" by simp
  have h2: "\<not> disabled (options ?st) ([?B, ?C] ! 0)" by code_simp
  have h3: "sync_failure example_env ([?B, ?C] ! 0) = Some (Thrown_Error ''Error: boom'')"
    by code_simp
  have h4: "stack_text (Thrown_Error ''Error: boom'') = Some ''Error: boom''" by simp
  have h5: "\<forall>i<0. disabled (options ?st) ([?B, ?C] ! i) \<or> sync_failure example_env ([?B, ?C] ! i) = None"
    by simp
  have h6: "name ([?B, ?C] ! 0) = Some ''broken''" by simp
  have msg: "errorMsg ([?B, ?C] ! 0) ''Error: boom''
               = ''Error when loading extension broken'' @ os_EOL @ ''Error: boom''"
    by code_simp
  have st: "starts example_env (options ?st) ([?B, ?C] ! 1)" by code_simp
  from failing_entry_point_rejects_init [OF h1 h2 h3 h4 h5 h6]
  have a: "init_result (activate example_env [?B, ?C] ?st)
             = Some (Rejected (Error (errorMsg ([?B, ?C] ! 0) ''Error: boom'')))"
    and b: "sublist ''broken'' (errorMsg ([?B, ?C] ! 0) ''Error: boom'')"
    and c: "\<forall>c<length [?B, ?C]. starts example_env (options ?st) ([?B, ?C] ! c)
               \<longrightarrow> Invoked c \<in> set (new_events ?st (activate example_env [?B, ?C] ?st))"
    by blast+
  from c st have d: "Invoked 1 \<in> set (new_events ?st (activate example_env [?B, ?C] ?st))"
    by simp
  show ?thesis
    by (intro conjI) (rule h3, rule a [unfolded msg], rule b [unfolded msg], rule d)
qed

end
